theory Spec2Isabelle
  imports Main "HOL-Library.Word"
begin

unbundle bit_operations_syntax

section \<open>Data model\<close>

text \<open>
  Python values as they appear in \<^verbatim>\<open>techtap/ndef_encoder.py\<close>:
  a \<^verbatim>\<open>bytes\<close> object is a list of 8-bit words, a \<^verbatim>\<open>str\<close> is a list of
  Unicode code points (what Python's \<^verbatim>\<open>len\<close>, slicing and \<^verbatim>\<open>strip\<close> count), an
  \<^verbatim>\<open>int\<close> is an unbounded integer. Every exception the code can raise is a value
  of \<open>exn\<close>; a function that may raise returns \<open>exn + 'a\<close> with \<open>Inl\<close> for the raise.
\<close>

type_synonym byte = "8 word"
type_synonym bytes = "byte list"
type_synonym str = "nat list"

datatype exn =
    IndexError | StructError | ValueError
  | UnicodeEncodeError | UnicodeDecodeError
  | ConnectionError | SerialException

definition lit :: "string \<Rightarrow> str" where
  \<comment> \<open>an ASCII string literal of the source, as code points\<close>
  "lit s = map of_char s"

definition blit :: "string \<Rightarrow> bytes" where
  \<comment> \<open>an ASCII bytes literal of the source (\<^verbatim>\<open>b"U"\<close>)\<close>
  "blit s = map (\<lambda>c. of_nat (of_char c)) s"

subsection \<open>\<^verbatim>\<open>struct.pack\<close>\<close>

text \<open>
  \<^verbatim>\<open>struct.pack\<close> raises \<^verbatim>\<open>struct.error\<close> when a number does not fit its field:
  \<^verbatim>\<open>B\<close> is one unsigned byte, \<^verbatim>\<open>>H\<close> two bytes big-endian, \<^verbatim>\<open>>I\<close> four.
\<close>

datatype fld = B int | H int | I int

fun pack1 :: "fld \<Rightarrow> exn + bytes" where
  "pack1 (B n) = (if 0 \<le> n \<and> n \<le> 255 then Inr [word_of_int n] else Inl StructError)"
| "pack1 (H n) = (if 0 \<le> n \<and> n \<le> 65535
     then Inr [word_of_int (n div 256), word_of_int (n mod 256)] else Inl StructError)"
| "pack1 (I n) = (if 0 \<le> n \<and> n \<le> 4294967295
     then Inr [word_of_int (n div 16777216), word_of_int (n div 65536 mod 256),
               word_of_int (n div 256 mod 256), word_of_int (n mod 256)]
     else Inl StructError)"

fun struct_pack :: "fld list \<Rightarrow> exn + bytes" where
  "struct_pack [] = Inr []"
| "struct_pack (f # fs) =
     (case pack1 f of Inl e \<Rightarrow> Inl e
      | Inr b \<Rightarrow> (case struct_pack fs of Inl e \<Rightarrow> Inl e | Inr bs \<Rightarrow> Inr (b @ bs)))"

definition be_nat :: "bytes \<Rightarrow> nat" where
  \<comment> \<open>the number a big-endian byte string denotes (\<^verbatim>\<open>struct.unpack(">H")\<close>, \<^verbatim>\<open>">I"\<close>)\<close>
  "be_nat bs = foldl (\<lambda>a b. a * 256 + unat b) 0 bs"

definition unpack_be :: "nat \<Rightarrow> bytes \<Rightarrow> exn + nat" where
  \<comment> \<open>\<^verbatim>\<open>struct.unpack\<close> raises \<^verbatim>\<open>struct.error\<close> unless the buffer has exactly the field's size\<close>
  "unpack_be n bs = (if length bs = n then Inr (be_nat bs) else Inl StructError)"

definition rbind :: "exn + 'a \<Rightarrow> ('a \<Rightarrow> exn + 'b) \<Rightarrow> exn + 'b" where
  \<comment> \<open>sequencing: a raise skips the rest\<close>
  "rbind m f = (case m of Inl e \<Rightarrow> Inl e | Inr x \<Rightarrow> f x)"

subsection \<open>Strings\<close>

text \<open>
  \<^verbatim>\<open>str.strip()\<close> removes the code points for which \<^verbatim>\<open>str.isspace\<close> holds.

  \<open>lower\<close> and \<open>upper\<close> model \<^verbatim>\<open>str.lower()\<close> and \<^verbatim>\<open>str.upper()\<close> only where the
  code compares their result with an ASCII key (the prefix table, the platform table, the
  authentication names) or applies them to hexadecimal digits; they are not Python's case
  mapping on other strings. \<open>lower\<close> maps the ASCII capitals and the two code points
  whose lower case is or starts with an ASCII letter (\<open>U+0130\<close>, \<open>U+212A\<close>); every
  other code point has a lower case outside ASCII in Python and is left as it is here.
  \<open>upper\<close> maps the ASCII small letters; the code points outside ASCII whose
  upper case in Python holds an ASCII letter give \<open>I\<close>, \<open>S\<close>, \<open>SS\<close>, \<open>FF\<close>, \<open>FI\<close>,
  \<open>FL\<close>, \<open>FFI\<close>, \<open>FFL\<close>, \<open>ST\<close>, or a letter followed by a code point outside
  ASCII, so none of them can make a string equal to \<open>OPEN\<close>, \<open>WPA\<close>, \<open>WPA2\<close> or
  \<open>WPA2-EAP\<close>, the only keys \<open>upper\<close> is compared with. Either way a comparison with
  one of these ASCII keys has the outcome it has in Python.
\<close>

definition isspace :: "nat \<Rightarrow> bool" where
  "isspace c \<longleftrightarrow> (9 \<le> c \<and> c \<le> 13) \<or> (28 \<le> c \<and> c \<le> 32) \<or> c = 0x85 \<or> c = 0xA0
     \<or> c = 0x1680 \<or> (0x2000 \<le> c \<and> c \<le> 0x200A) \<or> c = 0x2028 \<or> c = 0x2029
     \<or> c = 0x202F \<or> c = 0x205F \<or> c = 0x3000"

definition lstrip :: "str \<Rightarrow> str" where
  "lstrip s = dropWhile isspace s"

definition strip :: "str \<Rightarrow> str" where
  "strip s = rev (dropWhile isspace (rev (dropWhile isspace s)))"

definition lower_cp :: "nat \<Rightarrow> str" where
  "lower_cp c = (if 0x41 \<le> c \<and> c \<le> 0x5A then [c + 32]
                else if c = 0x130 then [0x69, 0x307]
                else if c = 0x212A then [0x6B] else [c])"

definition lower :: "str \<Rightarrow> str" where
  "lower s = concat (map lower_cp s)"

definition upper_cp :: "nat \<Rightarrow> nat" where
  "upper_cp c = (if 0x61 \<le> c \<and> c \<le> 0x7A then c - 32 else c)"

definition upper :: "str \<Rightarrow> str" where
  "upper s = map upper_cp s"

definition startswith :: "str \<Rightarrow> str \<Rightarrow> bool" where
  "startswith s p \<longleftrightarrow> take (length p) s = p"

fun contains :: "str \<Rightarrow> str \<Rightarrow> bool" where
  \<comment> \<open>\<^verbatim>\<open>sub in s\<close>\<close>
  "contains [] sub = (sub = [])"
| "contains (c # s) sub = (startswith (c # s) sub \<or> contains s sub)"

fun join :: "str \<Rightarrow> str list \<Rightarrow> str" where
  "join sep [] = []"
| "join sep [x] = x"
| "join sep (x # y # ys) = x @ sep @ join sep (y # ys)"

definition split_max1 :: "str \<Rightarrow> str list" where
  \<comment> \<open>\<^verbatim>\<open>s.split(maxsplit=1)\<close>: the first whitespace-delimited token, then the rest
     without its leading whitespace; no element for an empty rest\<close>
  "split_max1 s =
     (let s1 = dropWhile isspace s
      in if s1 = [] then []
         else (let tok = takeWhile (\<lambda>c. \<not> isspace c) s1;
                   rest = dropWhile isspace (dropWhile (\<lambda>c. \<not> isspace c) s1)
               in if rest = [] then [tok] else [tok, rest]))"

fun format1 :: "str \<Rightarrow> str \<Rightarrow> str" where
  \<comment> \<open>\<^verbatim>\<open>template.format(arg)\<close> for a template with one \<^verbatim>\<open>{}\<close> field\<close>
  "format1 [] a = []"
| "format1 (c # rest) a =
     (if c = 0x7B \<and> take 1 rest = [0x7D] then a @ drop 1 rest else c # format1 rest a)"

definition hex_digit :: "nat \<Rightarrow> nat" where
  "hex_digit d = (if d < 10 then 0x30 + d else 0x61 + (d - 10))"

definition hex :: "bytes \<Rightarrow> str" where
  \<comment> \<open>\<^verbatim>\<open>bytes.hex()\<close>: two lower-case digits a byte\<close>
  "hex bs = concat (map (\<lambda>b. [hex_digit (unat b div 16), hex_digit (unat b mod 16)]) bs)"

definition bytes_to_hex :: "bytes \<Rightarrow> str" where
  "bytes_to_hex data = upper (hex data)"

subsection \<open>Codecs\<close>

text \<open>
  \<^verbatim>\<open>str.encode("utf-8")\<close> raises \<^verbatim>\<open>UnicodeEncodeError\<close> on a surrogate code point
  (a Python \<^verbatim>\<open>str\<close> has no code point from \<open>0x110000\<close> on; the model raises there too).
  \<^verbatim>\<open>bytes.decode("utf-8", errors="replace")\<close> follows CPython's decoder: an invalid start
  byte, or the bytes of a sequence read before an invalid continuation byte, become one
  \<open>U+FFFD\<close>, and so does a sequence cut off by the end of the data.
\<close>

definition utf8_cp :: "nat \<Rightarrow> exn + bytes" where
  "utf8_cp c =
     (if c < 0x80 then Inr [of_nat c]
      else if c < 0x800 then Inr [of_nat (0xC0 + c div 64), of_nat (0x80 + c mod 64)]
      else if c < 0x10000 then
        (if 0xD800 \<le> c \<and> c \<le> 0xDFFF then Inl UnicodeEncodeError
         else Inr [of_nat (0xE0 + c div 4096), of_nat (0x80 + c div 64 mod 64),
                   of_nat (0x80 + c mod 64)])
      else if c < 0x110000 then
        Inr [of_nat (0xF0 + c div 262144), of_nat (0x80 + c div 4096 mod 64),
             of_nat (0x80 + c div 64 mod 64), of_nat (0x80 + c mod 64)]
      else Inl UnicodeEncodeError)"

fun utf8_encode :: "str \<Rightarrow> exn + bytes" where
  "utf8_encode [] = Inr []"
| "utf8_encode (c # s) =
     (case utf8_cp c of Inl e \<Rightarrow> Inl e
      | Inr b \<Rightarrow> (case utf8_encode s of Inl e \<Rightarrow> Inl e | Inr bs \<Rightarrow> Inr (b @ bs)))"

definition is_cont :: "byte \<Rightarrow> bool" where
  "is_cont b \<longleftrightarrow> 0x80 \<le> unat b \<and> unat b < 0xC0"

definition cont :: "byte \<Rightarrow> nat" where
  "cont b = unat b mod 64"

fun utf8_next :: "byte \<Rightarrow> bytes \<Rightarrow> nat option \<times> bytes" where
  \<comment> \<open>one step of the decoder after the byte \<open>b\<close>: the code point read, or \<open>None\<close> for an
     error, and the bytes the decoder goes on with\<close>
  "utf8_next b rest =
     (let n = unat b in
      if n < 0x80 then (Some n, rest)
      else if n < 0xC2 then (None, rest)
      else if n < 0xE0 then
        (case rest of
           [] \<Rightarrow> (None, [])
         | b2 # r \<Rightarrow> if is_cont b2 then (Some ((n - 0xC0) * 64 + cont b2), r) else (None, rest))
      else if n < 0xF0 then
        (case rest of
           [] \<Rightarrow> (None, [])
         | b2 # r2 \<Rightarrow>
             if \<not> is_cont b2 \<or> (if unat b2 < 0xA0 then n = 0xE0 else n = 0xED) then (None, rest)
             else (case r2 of
                     [] \<Rightarrow> (None, [])
                   | b3 # r \<Rightarrow>
                       if is_cont b3
                       then (Some (((n - 0xE0) * 64 + cont b2) * 64 + cont b3), r)
                       else (None, r2)))
      else if n < 0xF5 then
        (case rest of
           [] \<Rightarrow> (None, [])
         | b2 # r2 \<Rightarrow>
             if \<not> is_cont b2 \<or> (if unat b2 < 0x90 then n = 0xF0 else n = 0xF4) then (None, rest)
             else (case r2 of
                     [] \<Rightarrow> (None, [])
                   | b3 # r3 \<Rightarrow>
                       if \<not> is_cont b3 then (None, r2)
                       else (case r3 of
                               [] \<Rightarrow> (None, [])
                             | b4 # r \<Rightarrow>
                                 if is_cont b4
                                 then (Some ((((n - 0xF0) * 64 + cont b2) * 64 + cont b3) * 64
                                             + cont b4), r)
                                 else (None, r3))))
      else (None, rest))"

declare utf8_next.simps [simp del]

lemma utf8_next_length: "length (snd (utf8_next b rest)) \<le> length rest"
  by (simp add: utf8_next.simps Let_def split: list.split)

lemma utf8_next_shorter: "utf8_next b rest = (c, rest') \<Longrightarrow> length rest' < Suc (length rest)"
  using utf8_next_length[of b rest] by simp

function utf8_decode_replace :: "bytes \<Rightarrow> str" where
  "utf8_decode_replace [] = []"
| "utf8_decode_replace (b # rest) =
     (case utf8_next b rest of
        (Some c, rest') \<Rightarrow> c # utf8_decode_replace rest'
      | (None, rest') \<Rightarrow> 0xFFFD # utf8_decode_replace rest')"
  by pat_completeness auto
termination
  by (relation "measure length") (auto dest: utf8_next_shorter sym)

function utf8_decode :: "bytes \<Rightarrow> exn + str" where
  \<comment> \<open>\<^verbatim>\<open>bytes.decode("utf-8")\<close>, strict: the first error raises\<close>
  "utf8_decode [] = Inr []"
| "utf8_decode (b # rest) =
     (case utf8_next b rest of
        (Some c, rest') \<Rightarrow> (case utf8_decode rest' of Inl e \<Rightarrow> Inl e | Inr s \<Rightarrow> Inr (c # s))
      | (None, rest') \<Rightarrow> Inl UnicodeDecodeError)"
  by pat_completeness auto
termination
  by (relation "measure length") (auto dest: utf8_next_shorter sym)

definition ascii_encode :: "str \<Rightarrow> exn + bytes" where
  "ascii_encode s = (if \<forall>c \<in> set s. c < 0x80 then Inr (map of_nat s) else Inl UnicodeEncodeError)"

definition ascii_decode :: "bytes \<Rightarrow> exn + str" where
  \<comment> \<open>\<^verbatim>\<open>bytes.decode("ascii")\<close>, strict\<close>
  "ascii_decode bs = (if \<forall>b \<in> set bs. unat b < 0x80 then Inr (map unat bs) else Inl UnicodeDecodeError)"

definition ascii_decode_replace :: "bytes \<Rightarrow> str" where
  "ascii_decode_replace bs = map (\<lambda>b. if unat b < 0x80 then unat b else 0xFFFD) bs"

section \<open>Tables\<close>

definition URI_PREFIXES :: "(str \<times> nat) list" where
  \<comment> \<open>the dict of the source, in its insertion order\<close>
  "URI_PREFIXES = map (\<lambda>(p, c). (lit p, c))
     [(''http://www.'', 0x01), (''https://www.'', 0x02), (''http://'', 0x03),
      (''https://'', 0x04), (''tel:'', 0x05), (''mailto:'', 0x06),
      (''ftp://anonymous:anonymous@'', 0x07), (''ftp://ftp.'', 0x08), (''ftps://'', 0x09),
      (''sftp://'', 0x0A), (''smb://'', 0x0B), (''nfs://'', 0x0C), (''ftp://'', 0x0D),
      (''dav://'', 0x0E), (''news:'', 0x0F), (''telnet://'', 0x10), (''imap:'', 0x11),
      (''rtsp://'', 0x12), (''urn:'', 0x13), (''pop:'', 0x14), (''sip:'', 0x15),
      (''sips:'', 0x16), (''tftp:'', 0x17), (''btspp://'', 0x18), (''btl2cap://'', 0x19),
      (''btgoep://'', 0x1A), (''tcpobex://'', 0x1B), (''irdaobex://'', 0x1C),
      (''file://'', 0x1D), (''urn:epc:id:'', 0x1E), (''urn:epc:tag:'', 0x1F),
      (''urn:epc:pat:'', 0x20), (''urn:epc:raw:'', 0x21), (''urn:epc:'', 0x22),
      (''urn:nfc:'', 0x23)]"

definition SOCIAL_PLATFORMS :: "(str \<times> str) list" where
  "SOCIAL_PLATFORMS = map (\<lambda>(k, t). (lit k, lit t))
     [(''facebook'', ''https://facebook.com/{}''),
      (''instagram'', ''https://instagram.com/{}''),
      (''twitter'', ''https://twitter.com/{}''),
      (''x'', ''https://x.com/{}''),
      (''tiktok'', ''https://tiktok.com/@'' @ ''{}''),
      (''youtube'', ''https://youtube.com/@'' @ ''{}''),
      (''linkedin'', ''https://linkedin.com/in/{}''),
      (''github'', ''https://github.com/{}''),
      (''telegram'', ''https://t.me/{}''),
      (''snapchat'', ''https://snapchat.com/add/{}''),
      (''reddit'', ''https://reddit.com/u/{}''),
      (''pinterest'', ''https://pinterest.com/{}''),
      (''whatsapp'', ''https://wa.me/{}''),
      (''discord'', ''https://discord.gg/{}''),
      (''spotify'', ''https://open.spotify.com/user/{}''),
      (''twitch'', ''https://twitch.tv/{}''),
      (''threads'', ''https://threads.net/@'' @ ''{}'')]"

section \<open>Low-level NDEF helpers\<close>

definition make_ndef_record :: "int \<Rightarrow> bytes \<Rightarrow> bytes \<Rightarrow> bool \<Rightarrow> bool \<Rightarrow> exn + bytes" where
  "make_ndef_record tnf rec_type payload is_first is_last =
     (let flags0 = tnf AND 0x07;
          flags1 = (if is_first then flags0 OR 0x80 else flags0);
          flags2 = (if is_last then flags1 OR 0x40 else flags1)
      in case (if length payload \<le> 255
               then struct_pack [B (flags2 OR 0x10), B (int (length rec_type)),
                                 B (int (length payload))]
               else struct_pack [B flags2, B (int (length rec_type)),
                                 I (int (length payload))]) of
           Inl e \<Rightarrow> Inl e
         | Inr header \<Rightarrow> Inr (header @ rec_type @ payload))"

definition wrap_tlv :: "bytes \<Rightarrow> exn + bytes" where
  "wrap_tlv ndef_message =
     (let len = length ndef_message
      in if len < 0xFF
         then Inr ([0x03, of_nat len] @ ndef_message @ [0xFE])
         else (case struct_pack [H (int len)] of
                 Inl e \<Rightarrow> Inl e
               | Inr l \<Rightarrow> Inr ([0x03, 0xFF] @ l @ ndef_message @ [0xFE])))"

definition encode_empty_ndef :: bytes where
  "encode_empty_ndef = [0x03, 0x00, 0xFE]"


section \<open>Public encoder functions\<close>

text \<open>
  \<^verbatim>\<open>bytes([n])\<close> is written \<open>of_nat n\<close> where the source passes a table code, a masked
  length or a constant: those are below 256 by construction, so its range check never fires.
\<close>

definition encode_url :: "str \<Rightarrow> exn + bytes" where
  "encode_url url0 =
     (let url = strip url0;
          (prefix_code, uri_field) =
            (case find (\<lambda>(prefix, code). startswith (lower url) prefix)
                       (sort_key (\<lambda>x. - int (length (fst x))) URI_PREFIXES) of
               None \<Rightarrow> (0, url)
             | Some (prefix, code) \<Rightarrow> (code, drop (length prefix) url))
      in rbind (utf8_encode uri_field) (\<lambda>u.
         rbind (make_ndef_record 0x01 (blit ''U'') (of_nat prefix_code # u) True True)
           wrap_tlv))"

definition encode_text :: "str \<Rightarrow> str \<Rightarrow> exn + bytes" where
  "encode_text text0 lang =
     (let text = strip text0
      in rbind (ascii_encode lang) (\<lambda>lang_bytes.
         let status_byte = int (length lang_bytes) AND 0x3F
         in rbind (utf8_encode text) (\<lambda>t.
            rbind (make_ndef_record 0x01 (blit ''T'')
                     (word_of_int status_byte # lang_bytes @ t) True True)
              wrap_tlv)))"

definition vcard_lines ::
  "str \<Rightarrow> str \<Rightarrow> str \<Rightarrow> str \<Rightarrow> str \<Rightarrow> str \<Rightarrow> str \<Rightarrow> str \<Rightarrow> exn + str list" where
  \<comment> \<open>the list \<^verbatim>\<open>lines\<close> of \<^verbatim>\<open>encode_vcard\<close>; \<^verbatim>\<open>parts[0]\<close> raises on an empty list\<close>
  "vcard_lines name phone email org title url address note =
     (let lines = [lit ''BEGIN:VCARD'', lit ''VERSION:3.0'', lit ''FN:'' @ strip name];
          parts = split_max1 (strip name)
      in rbind (if length parts = 2
                then Inr (lit ''N:'' @ parts ! 1 @ lit '';'' @ parts ! 0 @ lit '';;;'')
                else (case parts of
                        [] \<Rightarrow> Inl IndexError
                      | p0 # _ \<Rightarrow> Inr (lit ''N:'' @ p0 @ lit '';;;;''))) (\<lambda>n_line.
         Inr (lines @ [n_line]
           @ (if phone \<noteq> [] then [lit ''TEL;TYPE=CELL:'' @ strip phone] else [])
           @ (if email \<noteq> [] then [lit ''EMAIL:'' @ strip email] else [])
           @ (if org \<noteq> [] then [lit ''ORG:'' @ strip org] else [])
           @ (if title \<noteq> [] then [lit ''TITLE:'' @ strip title] else [])
           @ (if url \<noteq> [] then [lit ''URL:'' @ strip url] else [])
           @ (if address \<noteq> [] then [lit ''ADR;TYPE=HOME:;;'' @ strip address @ lit '';;;;''] else [])
           @ (if note \<noteq> [] then [lit ''NOTE:'' @ strip note] else [])
           @ [lit ''END:VCARD''])))"

definition encode_vcard ::
  "str \<Rightarrow> str \<Rightarrow> str \<Rightarrow> str \<Rightarrow> str \<Rightarrow> str \<Rightarrow> str \<Rightarrow> str \<Rightarrow> exn + bytes" where
  "encode_vcard name phone email org title url address note =
     rbind (vcard_lines name phone email org title url address note) (\<lambda>lines.
     let vcard_str = join [0x0D, 0x0A] lines
     in rbind (utf8_encode vcard_str) (\<lambda>payload.
        rbind (make_ndef_record 0x02 (blit ''text/vcard'') payload True True) wrap_tlv))"

definition encode_phone :: "str \<Rightarrow> exn + bytes" where
  "encode_phone phone0 =
     (let phone = filter (\<lambda>c. c \<noteq> 0x2D) (filter (\<lambda>c. c \<noteq> 0x20) (strip phone0))
      in rbind (utf8_encode phone) (\<lambda>p.
         rbind (make_ndef_record 0x01 (blit ''U'') (0x05 # p) True True) wrap_tlv))"

definition encode_email :: "str \<Rightarrow> str \<Rightarrow> str \<Rightarrow> exn + bytes" where
  "encode_email email0 subject body =
     (let email = strip email0;
          params = (if subject \<noteq> [] then [lit ''subject='' @ subject] else [])
                   @ (if body \<noteq> [] then [lit ''body='' @ body] else []);
          mailto = (if params \<noteq> [] then email @ lit ''?'' @ join (lit ''&'') params else email)
      in rbind (utf8_encode mailto) (\<lambda>m.
         rbind (make_ndef_record 0x01 (blit ''U'') (0x06 # m) True True) wrap_tlv))"

definition encode_social :: "str \<Rightarrow> str \<Rightarrow> exn + bytes" where
  "encode_social platform0 username0 =
     (let platform = lower (strip platform0);
          username = dropWhile (\<lambda>c. c = 0x40) (strip username0)
      in case map_of SOCIAL_PLATFORMS platform of
           None \<Rightarrow> Inl ValueError
         | Some template \<Rightarrow> encode_url (format1 template username))"

definition auth_map :: "(str \<times> int) list" where
  "auth_map = [(lit ''OPEN'', 0x0001), (lit ''WPA'', 0x0002), (lit ''WPA2'', 0x0020),
               (lit ''WPA2-EAP'', 0x0020)]"

definition wifi_credential :: "str \<Rightarrow> str \<Rightarrow> str \<Rightarrow> exn + bytes" where
  \<comment> \<open>the byte string \<^verbatim>\<open>credential\<close> of \<^verbatim>\<open>encode_wifi\<close>, built attribute by attribute\<close>
  "wifi_credential ssid password auth_type =
     rbind (struct_pack [H 0x1026, H 1]) (\<lambda>a1.
     rbind (utf8_encode ssid) (\<lambda>ssid_bytes.
     rbind (struct_pack [H 0x1045, H (int (length ssid_bytes))]) (\<lambda>a2.
     let auth_val = (case map_of auth_map (upper auth_type) of None \<Rightarrow> 0x0020 | Some v \<Rightarrow> v)
     in rbind (struct_pack [H 0x1003, H 2, H auth_val]) (\<lambda>a3.
     let enc_val = (if upper auth_type \<noteq> lit ''OPEN'' then 0x0004 else 0x0001)
     in rbind (struct_pack [H 0x100F, H 2, H enc_val]) (\<lambda>a4.
     rbind (if password \<noteq> []
            then rbind (utf8_encode password) (\<lambda>pw_bytes.
                 rbind (struct_pack [H 0x1027, H (int (length pw_bytes))]) (\<lambda>a5.
                 Inr (a5 @ pw_bytes)))
            else Inr []) (\<lambda>key.
     rbind (struct_pack [H 0x1020, H 6]) (\<lambda>a6.
     Inr (a1 @ [0x01] @ a2 @ ssid_bytes @ a3 @ a4 @ key @ a6 @ replicate 6 0xFF))))))))"

definition encode_wifi :: "str \<Rightarrow> str \<Rightarrow> str \<Rightarrow> bool \<Rightarrow> exn + bytes" where
  "encode_wifi ssid password auth_type hidden =
     rbind (wifi_credential ssid password auth_type) (\<lambda>credential.
     rbind (struct_pack [H 0x100E, H (int (length credential))]) (\<lambda>a0.
     let payload = a0 @ credential
     in rbind (make_ndef_record 0x02 (blit ''application/vnd.wfa.wsc'') payload True True)
          wrap_tlv))"

section \<open>Decoder\<close>

record ndef_info =
  info_type :: str
  info_tnf :: nat
  raw_payload :: bytes
  content_type :: str
  content :: str
  language :: "str option"

definition getb :: "bytes \<Rightarrow> nat \<Rightarrow> exn + byte" where
  \<comment> \<open>\<^verbatim>\<open>data[i]\<close> for \<open>i \<ge> 0\<close>\<close>
  "getb d i = (if i < length d then Inr (d ! i) else Inl IndexError)"

definition slice :: "bytes \<Rightarrow> nat \<Rightarrow> nat \<Rightarrow> bytes" where
  \<comment> \<open>\<^verbatim>\<open>data[i:j]\<close> for \<open>0 \<le> i\<close>; never raises\<close>
  "slice d i j = take (j - i) (drop i d)"

definition interpret_record :: "str \<Rightarrow> nat \<Rightarrow> bytes \<Rightarrow> exn + ndef_info option" where
  \<comment> \<open>the part of \<^verbatim>\<open>get_ndef_payload_info\<close> after the comment \<^verbatim>\<open># Interpret\<close>\<close>
  "interpret_record rec_type tnf payload =
     (let info = \<lparr>info_type = rec_type, info_tnf = tnf, raw_payload = payload,
                  content_type = [], content = [], language = None\<rparr>
      in if rec_type = lit ''U'' \<and> tnf = 0x01 then
           rbind (getb payload 0) (\<lambda>prefix_code.
           let uri_suffix = utf8_decode_replace (drop 1 payload);
               prefix = (case find (\<lambda>(p, c). c = unat prefix_code) URI_PREFIXES of
                           None \<Rightarrow> [] | Some (p, c) \<Rightarrow> p)
           in Inr (Some (info\<lparr>content_type := lit ''URL'', content := prefix @ uri_suffix\<rparr>)))
         else if rec_type = lit ''T'' \<and> tnf = 0x01 then
           rbind (getb payload 0) (\<lambda>st.
           let lang_len = unat (st AND 0x3F)
           in rbind (ascii_decode (slice payload 1 (1 + lang_len))) (\<lambda>lang.
              let text = utf8_decode_replace (drop (1 + lang_len) payload)
              in Inr (Some (info\<lparr>content_type := lit ''Text'', content := text,
                                   language := Some lang\<rparr>))))
         else if contains (lower rec_type) (lit ''vcard'') then
           Inr (Some (info\<lparr>content_type := lit ''vCard'',
                            content := utf8_decode_replace payload\<rparr>))
         else if contains (lower rec_type) (lit ''wfa.wsc'') then
           Inr (Some (info\<lparr>content_type := lit ''WiFi'',
                            content := lit ''[WiFi Configuration Data]''\<rparr>))
         else
           Inr (Some (info\<lparr>content_type := lit ''Unknown'', content := hex payload\<rparr>)))"

definition ndef_body :: "bytes \<Rightarrow> exn + ndef_info option" where
  \<comment> \<open>the body of the \<^verbatim>\<open>try\<close> of \<^verbatim>\<open>get_ndef_payload_info\<close>\<close>
  "ndef_body data =
     (if length data < 5 then Inr None
      else rbind (getb data 0) (\<lambda>t.
        if t \<noteq> 0x03 then Inr None
        else rbind (getb data 1) (\<lambda>l.
          rbind (if l = 0xFF
                 then rbind (unpack_be 2 (slice data 2 4)) (\<lambda>msg_len. Inr 4)
                 else Inr 2) (\<lambda>idx.
          rbind (getb data idx) (\<lambda>header.
          let tnf = unat (header AND 0x07);
              sr = (header AND 0x10 \<noteq> 0)
          in rbind (getb data (idx + 1)) (\<lambda>type_len.
             rbind (if sr
                    then rbind (getb data (idx + 2)) (\<lambda>pl. Inr (unat pl, idx + 3))
                    else rbind (unpack_be 4 (slice data (idx + 2) (idx + 6))) (\<lambda>pl.
                         Inr (pl, idx + 6))) (\<lambda>(payload_len, idx2).
             let rec_type = ascii_decode_replace (slice data idx2 (idx2 + unat type_len));
                 idx3 = idx2 + unat type_len;
                 payload = slice data idx3 (idx3 + payload_len)
             in interpret_record rec_type tnf payload)))))))"

definition get_ndef_payload_info :: "bytes \<Rightarrow> exn + ndef_info option" where
  \<comment> \<open>\<open>Inr None\<close> is the return value \<^verbatim>\<open>None\<close>; \<open>Inl e\<close> is an exception that leaves the
     function, which catches \<^verbatim>\<open>IndexError\<close> and \<^verbatim>\<open>struct.error\<close> only\<close>
  "get_ndef_payload_info data =
     (case ndef_body data of
        Inl IndexError \<Rightarrow> Inr None
      | Inl StructError \<Rightarrow> Inr None
      | r \<Rightarrow> r)"

section \<open>Serial transport (\<^verbatim>\<open>techtap/rfid_reader.py\<close>)\<close>

definition CMD_WRITE_RAW :: str where "CMD_WRITE_RAW = lit ''WRITE_RAW''"
definition CMD_ERASE :: str where "CMD_ERASE = lit ''ERASE''"
definition CMD_READ :: str where "CMD_READ = lit ''READ''"
definition CMD_LOCK :: str where "CMD_LOCK = lit ''LOCK''"
definition CMD_INFO :: str where "CMD_INFO = lit ''INFO''"
definition CMD_PING :: str where "CMD_PING = lit ''PING''"

definition RESP_WRITE_OK :: str where "RESP_WRITE_OK = lit ''WRITE_OK''"
definition RESP_ERASE_OK :: str where "RESP_ERASE_OK = lit ''ERASE_OK''"
definition RESP_READ_OK :: str where "RESP_READ_OK = lit ''READ_OK''"
definition RESP_LOCK_OK :: str where "RESP_LOCK_OK = lit ''LOCK_OK''"
definition RESP_TAP_CARD :: str where "RESP_TAP_CARD = lit ''TAP_CARD''"
definition RESP_ERROR :: str where "RESP_ERROR = lit ''ERROR''"
definition RESP_PONG :: str where "RESP_PONG = lit ''PONG''"
definition RESP_VERIFY_OK :: str where "RESP_VERIFY_OK = lit ''VERIFY_OK''"
definition RESP_TAG_INFO :: str where "RESP_TAG_INFO = lit ''TAG_INFO''"
definition RESP_NO_TAG :: str where "RESP_NO_TAG = lit ''NO_TAG''"
definition RESP_WRITE_FAIL :: str where "RESP_WRITE_FAIL = lit ''WRITE_FAIL''"
definition RESP_DATA :: str where "RESP_DATA = lit ''DATA''"
definition RESP_DUPLICATE :: str where "RESP_DUPLICATE = lit ''DUPLICATE''"

text \<open>
  The session object and the serial line it talks to. \<open>tx\<close> collects the command lines
  written to the port (without the final newline). \<open>rx\<close> is what the coming
  \<^verbatim>\<open>readline()\<close> calls return, in order: a raw line, or \<open>[]\<close> when nothing arrives
  within the one-second read timeout (a silent line once \<open>rx\<close> is used up).
  \<open>wr_faults\<close> says for the coming writes whether the port raises
  \<^verbatim>\<open>SerialException\<close> (with its message). \<open>taps\<close> counts the calls of the
  \<^verbatim>\<open>on_tap_prompt\<close> callback. The lock is \<^verbatim>\<open>threading.Lock\<close>: not reentrant, so
  acquiring it while it is held never returns.
  Time is counted in timed-out reads: a wait of \<open>n\<close> seconds ends after \<open>n\<close> of them.
\<close>

record reader =
  r_connected :: bool
  r_serial :: "bool option"
  max_retries :: int
  lock_held :: bool
  port_found :: bool
  open_ok :: bool
  tx :: "str list"
  rx :: "bytes list"
  wr_faults :: "str option list"
  taps :: nat

record response =
  status :: str
  data :: str
  raw :: "str list"

text \<open>The result dicts of the public commands: a key that is absent is \<open>None\<close>.\<close>

record outcome =
  success :: bool
  error :: "str option"
  uid :: "str option"
  attempts :: "int option"
  verified :: "bool option"
  duplicate :: "bool option"
  out_data :: "str option"
  out_raw :: "str list option"
  out_info :: "(str \<times> str) list option"

datatype 'a res = Returns 'a | Raises exn | Blocks

definition no_outcome :: outcome where
  "no_outcome = \<lparr>success = False, error = None, uid = None, attempts = None, verified = None,
                  duplicate = None, out_data = None, out_raw = None, out_info = None\<rparr>"

definition failure :: "str \<Rightarrow> outcome" where
  \<comment> \<open>\<^verbatim>\<open>{"success": False, "error": msg}\<close>\<close>
  "failure msg = no_outcome\<lparr>error := Some msg\<rparr>"

fun digits :: "nat \<Rightarrow> str" where
  "digits n = (if n < 10 then [0x30 + n] else digits (n div 10) @ [0x30 + n mod 10])"

declare digits.simps [simp del]

definition str_int :: "int \<Rightarrow> str" where
  \<comment> \<open>an \<^verbatim>\<open>int\<close> in an f-string\<close>
  "str_int i = (if i < 0 then 0x2D # digits (nat (- i)) else digits (nat i))"

definition connected :: "reader \<Rightarrow> bool" where
  "connected r \<longleftrightarrow> r_connected r \<and> r_serial r = Some True"

definition send :: "reader \<Rightarrow> str \<Rightarrow> (exn \<times> str) option \<times> reader" where
  \<comment> \<open>\<^verbatim>\<open>_send\<close>: the exception raised with its message, if any, and the session after\<close>
  "send r command =
     (if r_serial r \<noteq> Some True
      then (Some (ConnectionError, lit ''Not connected to Arduino.''), r)
      else (case wr_faults r of
              [] \<Rightarrow> (None, r\<lparr>tx := tx r @ [command]\<rparr>)
            | f # fs \<Rightarrow>
                (case f of
                   Some msg \<Rightarrow> (Some (SerialException, msg), r\<lparr>wr_faults := fs\<rparr>)
                 | None \<Rightarrow> (None, r\<lparr>tx := tx r @ [command], wr_faults := fs\<rparr>))))"

definition read_line :: "reader \<Rightarrow> str option \<times> reader" where
  \<comment> \<open>\<^verbatim>\<open>_read_line\<close>: a read error is caught there and counts as no line\<close>
  "read_line r =
     (if r_serial r = None then (None, r)
      else (case rx r of
              [] \<Rightarrow> (None, r)
            | line # rest \<Rightarrow>
                (if line \<noteq> [] then Some (strip (utf8_decode_replace line)) else None,
                 r\<lparr>rx := rest\<rparr>)))"

lemma read_line_rx:
  "(x, r') = read_line r \<Longrightarrow> length (rx r') \<le> length (rx r)"
  "(Some l, r') = read_line r \<Longrightarrow> length (rx r') < length (rx r)"
  by (auto simp: read_line_def split: if_splits list.splits)

definition split_first :: "nat \<Rightarrow> str \<Rightarrow> str \<times> str option" where
  \<comment> \<open>\<^verbatim>\<open>s.split(sep, 1)\<close> for a one-character separator: the part before the first
     separator, and the part after it if there is one\<close>
  "split_first sep s =
     (takeWhile (\<lambda>c. c \<noteq> sep) s,
      if sep \<in> set s then Some (drop 1 (dropWhile (\<lambda>c. c \<noteq> sep) s)) else None)"

function wait_loop :: "str list \<Rightarrow> nat \<Rightarrow> str list \<Rightarrow> reader \<Rightarrow> response \<times> reader" where
  "wait_loop expected remaining lines r =
     (if remaining = 0 then (\<lparr>status = lit ''TIMEOUT'', data = [], raw = lines\<rparr>, r)
      else (case read_line r of
              (None, r') \<Rightarrow> wait_loop expected (remaining - 1) lines r'
            | (Some line, r') \<Rightarrow>
                (let lines' = lines @ [line];
                     parts = split_first 0x7C line;
                     st = strip (fst parts);
                     dt = (case snd parts of Some d \<Rightarrow> strip d | None \<Rightarrow> [])
                 in if st \<in> set expected
                    then (\<lparr>status = st, data = dt, raw = lines'\<rparr>, r')
                    else if st = RESP_ERROR
                    then (\<lparr>status = RESP_ERROR, data = dt, raw = lines'\<rparr>, r')
                    else wait_loop expected remaining lines' r')))"
  by pat_completeness auto
termination
proof (relation "measure (\<lambda>(e, t, l, r). t + length (rx r))", goal_cases)
  case 1
  show ?case by simp
next
  case (2 expected remaining lines r x r')
  then show ?case using read_line_rx(1)[of None r' r] by simp
next
  case (3 expected remaining lines r x r' line)
  then show ?case using read_line_rx(2)[of line r' r] by simp
qed

declare wait_loop.simps [simp del]

definition wait_for_response :: "str list \<Rightarrow> nat \<Rightarrow> reader \<Rightarrow> response \<times> reader" where
  "wait_for_response expected timeout r = wait_loop expected timeout [] r"

definition ping :: "reader \<Rightarrow> bool \<times> reader" where
  \<comment> \<open>\<^verbatim>\<open>_ping\<close>: any exception gives \<^verbatim>\<open>False\<close>\<close>
  "ping r =
     (case send r CMD_PING of
        (Some e, r1) \<Rightarrow> (False, r1)
      | (None, r1) \<Rightarrow>
          (case read_line r1 of
             (None, r2) \<Rightarrow> (False, r2)
           | (Some l, r2) \<Rightarrow> (contains l RESP_PONG, r2)))"

definition disconnect :: "reader \<Rightarrow> reader option" where
  \<comment> \<open>\<open>None\<close>: the call blocks on the lock and never returns\<close>
  "disconnect r =
     (if lock_held r then None
      else Some (r\<lparr>r_serial := None, r_connected := False\<rparr>))"

definition connect :: "reader \<Rightarrow> (bool \<times> reader) option" where
  \<comment> \<open>\<open>port_found\<close>: a port is configured or detected; \<open>open_ok\<close>: opening it succeeds.
     The session is marked connected whether or not the ping is answered.\<close>
  "connect r =
     (if lock_held r then None
      else if connected r then Some (True, r)
      else if \<not> port_found r then Some (False, r)
      else if \<not> open_ok r then Some (False, r\<lparr>r_serial := None, r_connected := False\<rparr>)
      else (case ping (r\<lparr>r_serial := Some True\<rparr>) of
              (pong, r1) \<Rightarrow> Some (True, r1\<lparr>r_connected := True\<rparr>)))"

definition reconnect :: "reader \<Rightarrow> (bool \<times> reader) option" where
  "reconnect r = (case disconnect r of None \<Rightarrow> None | Some r1 \<Rightarrow> connect r1)"

definition tap_prompt :: "bool \<Rightarrow> reader \<Rightarrow> reader" where
  \<comment> \<open>\<^verbatim>\<open>if on_tap_prompt: on_tap_prompt()\<close>\<close>
  "tap_prompt tap r = (if tap then r\<lparr>taps := taps r + 1\<rparr> else r)"

fun write_loop :: "str \<Rightarrow> bool \<Rightarrow> nat \<Rightarrow> int \<Rightarrow> reader \<Rightarrow> outcome res \<times> reader" where
  \<comment> \<open>the \<^verbatim>\<open>for attempt in range(1, self.max_retries + 1)\<close> loop of \<^verbatim>\<open>write_ndef\<close>, with
     the number of iterations left and the value of \<^verbatim>\<open>attempt\<close>\<close>
  "write_loop command tap 0 attempt r =
     (Returns (failure (lit ''Failed after '' @ str_int (max_retries r) @ lit '' attempts'')), r)"
| "write_loop command tap (Suc k) attempt r =
     (case send r command of
        (Some (e, msg), r1) \<Rightarrow>
          if e = SerialException
          then (case reconnect r1 of
                  None \<Rightarrow> (Blocks, r1)
                | Some (ok, r2) \<Rightarrow> write_loop command tap k (attempt + 1) r2)
          else (Raises e, r1)
      | (None, r1) \<Rightarrow>
          (case wait_for_response [RESP_TAP_CARD, RESP_ERROR] 5 r1 of
             (resp, r2) \<Rightarrow>
               if status resp = RESP_TAP_CARD then
                 (case wait_for_response
                         [RESP_WRITE_OK, RESP_WRITE_FAIL, RESP_ERROR, RESP_VERIFY_OK,
                          RESP_DUPLICATE] 30 (tap_prompt tap r2) of
                    (result, r3) \<Rightarrow>
                      if status result = RESP_WRITE_OK then
                        (Returns (no_outcome\<lparr>success := True, uid := Some (data result),
                                   attempts := Some attempt, verified := Some False\<rparr>), r3)
                      else if status result = RESP_VERIFY_OK then
                        (Returns (no_outcome\<lparr>success := True, uid := Some (data result),
                                   attempts := Some attempt, verified := Some True\<rparr>), r3)
                      else if status result = RESP_DUPLICATE then
                        (Returns (no_outcome\<lparr>success := False,
                                   error := Some (lit ''Tag already contains data''),
                                   duplicate := Some True, uid := Some (data result)\<rparr>), r3)
                      else if status result = RESP_WRITE_FAIL then
                        write_loop command tap k (attempt + 1) r3
                      else write_loop command tap k (attempt + 1) r3)
               else if status resp = RESP_ERROR then (Returns (failure (data resp)), r2)
               else if status resp = lit ''TIMEOUT'' then write_loop command tap k (attempt + 1) r2
               else write_loop command tap k (attempt + 1) r2))"

definition locked :: "(reader \<Rightarrow> outcome res \<times> reader) \<Rightarrow> reader \<Rightarrow> outcome res \<times> reader" where
  \<comment> \<open>\<^verbatim>\<open>with self._lock:\<close> around a body: the lock is released when the body returns
     or raises\<close>
  "locked body r =
     (if lock_held r then (Blocks, r)
      else (case body (r\<lparr>lock_held := True\<rparr>) of
              (Blocks, r1) \<Rightarrow> (Blocks, r1)
            | (x, r1) \<Rightarrow> (x, r1\<lparr>lock_held := False\<rparr>)))"

definition write_ndef :: "reader \<Rightarrow> bytes \<Rightarrow> bool \<Rightarrow> outcome res \<times> reader" where
  "write_ndef r ndef_data tap =
     locked (\<lambda>r. if \<not> connected r then (Returns (failure (lit ''Not connected'')), r)
                 else (let hex_data = bytes_to_hex ndef_data;
                           command = CMD_WRITE_RAW @ lit ''|'' @ hex_data
                       in write_loop command tap (nat (max_retries r)) 1 r)) r"

definition two_phase ::
  "str \<Rightarrow> str list \<Rightarrow> (response \<Rightarrow> outcome option) \<Rightarrow> bool \<Rightarrow> reader \<Rightarrow> outcome res \<times> reader" where
  \<comment> \<open>the body shared by \<^verbatim>\<open>erase_tag\<close>, \<^verbatim>\<open>read_tag\<close>, \<^verbatim>\<open>lock_tag\<close> and
     \<^verbatim>\<open>get_tag_info\<close>: the command, the responses that end the second wait, and what the
     code returns for the second response (\<open>None\<close> where it falls through to the final
     \<^verbatim>\<open>return\<close>, whose message is the data of the first response)\<close>
  "two_phase command terminal on_result tap r =
     (if \<not> connected r then (Returns (failure (lit ''Not connected'')), r)
      else (case send r command of
              (Some (e, msg), r1) \<Rightarrow>
                if e = SerialException then (Returns (failure msg), r1) else (Raises e, r1)
            | (None, r1) \<Rightarrow>
                (case wait_for_response [RESP_TAP_CARD, RESP_ERROR] 5 r1 of
                   (resp, r2) \<Rightarrow>
                     if status resp = RESP_TAP_CARD then
                       (case wait_for_response terminal 30 (tap_prompt tap r2) of
                          (result, r3) \<Rightarrow>
                            (case on_result result of
                               Some out \<Rightarrow> (Returns out, r3)
                             | None \<Rightarrow> (Returns (failure (data resp)), r3)))
                     else (Returns (failure (data resp)), r2))))"

definition erase_tag :: "reader \<Rightarrow> bool \<Rightarrow> outcome res \<times> reader" where
  "erase_tag r tap =
     locked (two_phase CMD_ERASE [RESP_ERASE_OK, RESP_ERROR]
       (\<lambda>result. if status result = RESP_ERASE_OK
                  then Some (no_outcome\<lparr>success := True, uid := Some (data result)\<rparr>)
                  else None) tap) r"

definition read_tag :: "reader \<Rightarrow> bool \<Rightarrow> outcome res \<times> reader" where
  "read_tag r tap =
     locked (two_phase CMD_READ [RESP_READ_OK, RESP_TAG_INFO, RESP_DATA, RESP_NO_TAG, RESP_ERROR]
       (\<lambda>result. if status result \<in> {RESP_READ_OK, RESP_DATA, RESP_TAG_INFO}
                  then Some (no_outcome\<lparr>success := True, out_data := Some (data result),
                                         out_raw := Some (raw result)\<rparr>)
                  else if status result = RESP_NO_TAG
                  then Some (failure (lit ''No tag detected''))
                  else None) tap) r"

definition lock_tag :: "reader \<Rightarrow> bool \<Rightarrow> outcome res \<times> reader" where
  "lock_tag r tap =
     locked (two_phase CMD_LOCK [RESP_LOCK_OK, RESP_ERROR]
       (\<lambda>result. if status result = RESP_LOCK_OK
                  then Some (no_outcome\<lparr>success := True, uid := Some (data result)\<rparr>)
                  else None) tap) r"

fun split_on :: "nat \<Rightarrow> str \<Rightarrow> str list" where
  \<comment> \<open>\<^verbatim>\<open>s.split(sep)\<close> for a one-character separator\<close>
  "split_on sep [] = [[]]"
| "split_on sep (c # s) =
     (if c = sep then [] # split_on sep s
      else (case split_on sep s of [] \<Rightarrow> [[c]] | x # xs \<Rightarrow> (c # x) # xs))"

definition dict_set :: "(str \<times> str) list \<Rightarrow> str \<Rightarrow> str \<Rightarrow> (str \<times> str) list" where
  \<comment> \<open>\<^verbatim>\<open>d[k] = v\<close> on a dict in insertion order\<close>
  "dict_set d k v =
     (if k \<in> fst ` set d then map (\<lambda>(k', v'). if k' = k then (k', v) else (k', v')) d
      else d @ [(k, v)])"

definition parse_tag_info :: "str \<Rightarrow> (str \<times> str) list" where
  "parse_tag_info s =
     foldl (\<lambda>info pair.
              case split_first 0x3A pair of
                (k, Some v) \<Rightarrow> dict_set info (strip k) (strip v)
              | (k, None) \<Rightarrow> info) [] (split_on 0x2C s)"

definition get_tag_info :: "reader \<Rightarrow> bool \<Rightarrow> outcome res \<times> reader" where
  "get_tag_info r tap =
     locked (two_phase CMD_INFO [RESP_TAG_INFO, RESP_NO_TAG, RESP_ERROR]
       (\<lambda>result. if status result = RESP_TAG_INFO
                  then Some (no_outcome\<lparr>success := True,
                                         out_info := Some (parse_tag_info (data result))\<rparr>)
                  else None) tap) r"

section \<open>Phone bridge transport (\<^verbatim>\<open>techtap/phone_nfc.py\<close>)\<close>

text \<open>
  The commands sent to the phone page are the JSON objects of the source, one constructor
  for each shape. A reply is the JSON object the page sends back, at the types the page
  uses; \<open>nonempty\<close> is the truth value of the dict (\<^verbatim>\<open>{}\<close> is false).
  \<open>replies\<close> says what happens to the coming commands once they are handed to the
  socket: the send fails, no reply arrives within the wait, or a reply arrives.
  The fields of the session are read once when a command starts: the listener task that
  may change them meanwhile is not part of the model.
\<close>

datatype web_cmd =
    Write_url str
  | Write_text str str
  | Write_mime_text str str
  | Write_mime_hex str str
  | Write_raw str
  | Erase_cmd | Read_cmd | Lock_cmd | Info_cmd

record phone_reply =
  nonempty :: bool
  event :: str
  reply_uid :: "str option"
  reply_verified :: "bool option"
  reply_error :: "str option"
  reply_records :: "(str option \<times> str option) list option"
  reply_info :: "(str \<times> str) list option"

datatype phone_event = Send_error | No_reply | Reply phone_reply

record phone =
  p_connected :: bool
  phone_ready :: bool
  nfc_supported :: bool
  ws_client :: bool
  loop :: bool
  p_max_retries :: int
  p_lock_held :: bool
  sent :: "web_cmd list"
  replies :: "phone_event list"
  p_taps :: nat

record p_outcome =
  p_success :: bool
  p_error :: "str option"
  p_uid :: "str option"
  p_attempts :: "int option"
  p_verified :: "bool option"
  p_data :: "str option"
  p_records :: "(str option \<times> str option) list option"
  p_raw :: "str list option"
  p_info :: "(str \<times> str) list option"

definition no_p_outcome :: p_outcome where
  "no_p_outcome = \<lparr>p_success = False, p_error = None, p_uid = None, p_attempts = None,
     p_verified = None, p_data = None, p_records = None, p_raw = None, p_info = None\<rparr>"

definition p_failure :: "str \<Rightarrow> p_outcome" where
  "p_failure msg = no_p_outcome\<lparr>p_error := Some msg\<rparr>"

definition phone_is_connected :: "phone \<Rightarrow> bool" where
  \<comment> \<open>the property \<^verbatim>\<open>PhoneNFCReader.connected\<close>\<close>
  "phone_is_connected p \<longleftrightarrow> p_connected p \<and> phone_ready p"

definition send_command :: "phone \<Rightarrow> web_cmd \<Rightarrow> phone_reply option \<times> phone" where
  \<comment> \<open>\<^verbatim>\<open>_send_command\<close>: every exception is caught there and gives \<^verbatim>\<open>None\<close>\<close>
  "send_command p cmd =
     (if \<not> ws_client p \<or> \<not> loop p then (None, p)
      else (case replies p of
              [] \<Rightarrow> (None, p\<lparr>sent := sent p @ [cmd]\<rparr>)
            | Send_error # rest \<Rightarrow> (None, p\<lparr>replies := rest\<rparr>)
            | No_reply # rest \<Rightarrow> (None, p\<lparr>sent := sent p @ [cmd], replies := rest\<rparr>)
            | Reply m # rest \<Rightarrow> (Some m, p\<lparr>sent := sent p @ [cmd], replies := rest\<rparr>)))"

definition ndef_to_web_nfc :: "bytes \<Rightarrow> exn + web_cmd" where
  "ndef_to_web_nfc ndef_data =
     rbind (get_ndef_payload_info ndef_data) (\<lambda>info.
       case info of
         None \<Rightarrow> Inr (Write_raw (bytes_to_hex ndef_data))
       | Some info \<Rightarrow>
           if content_type info = lit ''URL'' then Inr (Write_url (content info))
           else if content_type info = lit ''Text'' then
             Inr (Write_text (content info)
                    (case language info of None \<Rightarrow> lit ''en'' | Some l \<Rightarrow> l))
           else if content_type info = lit ''vCard'' then
             Inr (Write_mime_text (lit ''text/vcard'') (content info))
           else if content_type info = lit ''WiFi'' then
             Inr (Write_mime_hex (lit ''application/vnd.wfa.wsc'')
                    (bytes_to_hex (raw_payload info)))
           else if info_tnf info = 2 \<and> info_type info \<noteq> [] then
             (case utf8_decode (raw_payload info) of
                Inr text_data \<Rightarrow> Inr (Write_mime_text (info_type info) text_data)
              | Inl e \<Rightarrow> Inr (Write_mime_hex (info_type info) (bytes_to_hex (raw_payload info))))
           else Inr (Write_raw (bytes_to_hex ndef_data)))"

definition p_tap_prompt :: "bool \<Rightarrow> phone \<Rightarrow> phone" where
  "p_tap_prompt tap p = (if tap then p\<lparr>p_taps := p_taps p + 1\<rparr> else p)"

fun p_write_loop :: "web_cmd \<Rightarrow> nat \<Rightarrow> int \<Rightarrow> phone \<Rightarrow> p_outcome \<times> phone" where
  "p_write_loop cmd 0 attempt p =
     (p_failure (lit ''Failed after '' @ str_int (p_max_retries p) @ lit '' attempts''), p)"
| "p_write_loop cmd (Suc k) attempt p =
     (case send_command p cmd of
        (None, p1) \<Rightarrow> p_write_loop cmd k (attempt + 1) p1
      | (Some response, p1) \<Rightarrow>
          if event response = lit ''write_ok'' then
            (no_p_outcome\<lparr>p_success := True,
               p_uid := Some (case reply_uid response of None \<Rightarrow> lit ''Unknown'' | Some u \<Rightarrow> u),
               p_attempts := Some attempt,
               p_verified := Some (case reply_verified response of None \<Rightarrow> False | Some v \<Rightarrow> v)\<rparr>,
             p1)
          else if event response = lit ''error'' then
            (if attempt < p_max_retries p1 then p_write_loop cmd k (attempt + 1) p1
             else (p_failure (case reply_error response of
                                None \<Rightarrow> lit ''Unknown error'' | Some e \<Rightarrow> e), p1))
          else p_write_loop cmd k (attempt + 1) p1)"

definition p_locked ::
  "(phone \<Rightarrow> p_outcome res \<times> phone) \<Rightarrow> phone \<Rightarrow> p_outcome res \<times> phone" where
  "p_locked body p =
     (if p_lock_held p then (Blocks, p)
      else (case body (p\<lparr>p_lock_held := True\<rparr>) of
              (Blocks, p1) \<Rightarrow> (Blocks, p1)
            | (x, p1) \<Rightarrow> (x, p1\<lparr>p_lock_held := False\<rparr>)))"

definition p_write_ndef :: "phone \<Rightarrow> bytes \<Rightarrow> bool \<Rightarrow> p_outcome res \<times> phone" where
  "p_write_ndef p ndef_data tap =
     p_locked (\<lambda>p.
       if \<not> phone_is_connected p then (Returns (p_failure (lit ''Phone not connected'')), p)
       else if \<not> nfc_supported p
       then (Returns (p_failure (lit ''Web NFC not supported on phone'')), p)
       else (case ndef_to_web_nfc ndef_data of
               Inl e \<Rightarrow> (Raises e, p)
             | Inr cmd \<Rightarrow>
                 (case p_write_loop cmd (nat (p_max_retries p)) 1 (p_tap_prompt tap p) of
                    (out, p1) \<Rightarrow> (Returns out, p1)))) p"

definition p_single ::
  "web_cmd \<Rightarrow> str \<Rightarrow> (phone_reply \<Rightarrow> p_outcome option) \<Rightarrow> bool \<Rightarrow> phone \<Rightarrow> p_outcome res \<times> phone" where
  \<comment> \<open>the body shared by the phone's \<^verbatim>\<open>erase_tag\<close>, \<^verbatim>\<open>read_tag\<close>, \<^verbatim>\<open>lock_tag\<close> and
     \<^verbatim>\<open>get_tag_info\<close>: the command, the default error text, and the success case\<close>
  "p_single cmd dflt on_reply tap p =
     (if \<not> phone_is_connected p then (Returns (p_failure (lit ''Phone not connected'')), p)
      else (case send_command (p_tap_prompt tap p) cmd of
              (response, p1) \<Rightarrow>
                (case (case response of
                         None \<Rightarrow> None
                       | Some m \<Rightarrow> if nonempty m then on_reply m else None) of
                   Some out \<Rightarrow> (Returns out, p1)
                 | None \<Rightarrow>
                     (Returns (p_failure
                        (case response of
                           None \<Rightarrow> lit ''No response from phone''
                         | Some m \<Rightarrow>
                             if nonempty m
                             then (case reply_error m of None \<Rightarrow> dflt | Some e \<Rightarrow> e)
                             else lit ''No response from phone'')), p1))))"

definition p_erase_tag :: "phone \<Rightarrow> bool \<Rightarrow> p_outcome res \<times> phone" where
  "p_erase_tag p tap =
     p_locked (p_single Erase_cmd (lit ''Erase failed'')
       (\<lambda>m. if event m = lit ''erase_ok''
             then Some (no_p_outcome\<lparr>p_success := True,
                          p_uid := Some (case reply_uid m of None \<Rightarrow> [] | Some u \<Rightarrow> u)\<rparr>)
             else None) tap) p"

definition p_read_tag :: "(str \<Rightarrow> str) \<Rightarrow> phone \<Rightarrow> bool \<Rightarrow> p_outcome res \<times> phone" where
  \<comment> \<open>\<open>str_upper\<close> stands for \<^verbatim>\<open>str.upper()\<close> on arbitrary text, which is a table of the
     Python runtime and not of this program\<close>
  "p_read_tag str_upper p tap =
     p_locked (p_single Read_cmd (lit ''Read failed'')
       (\<lambda>m. if event m = lit ''read_ok''
             then (let records = (case reply_records m of None \<Rightarrow> [] | Some rs \<Rightarrow> rs);
                       raw_lines = map (\<lambda>(rtype, c).
                           str_upper (case rtype of None \<Rightarrow> lit ''unknown'' | Some t \<Rightarrow> t)
                           @ lit '': '' @ (case c of None \<Rightarrow> [] | Some x \<Rightarrow> x)) records
                   in Some (no_p_outcome\<lparr>p_success := True, p_data := Some [],
                              p_records := Some records, p_raw := Some raw_lines\<rparr>))
             else None) tap) p"

definition p_lock_tag :: "phone \<Rightarrow> bool \<Rightarrow> p_outcome res \<times> phone" where
  "p_lock_tag p tap =
     p_locked (p_single Lock_cmd (lit ''Lock failed'')
       (\<lambda>m. if event m = lit ''lock_ok''
             then Some (no_p_outcome\<lparr>p_success := True,
                          p_uid := Some (case reply_uid m of None \<Rightarrow> [] | Some u \<Rightarrow> u)\<rparr>)
             else None) tap) p"

definition p_get_tag_info :: "phone \<Rightarrow> bool \<Rightarrow> p_outcome res \<times> phone" where
  "p_get_tag_info p tap =
     p_locked (p_single Info_cmd (lit ''Info failed'')
       (\<lambda>m. if event m = lit ''tag_info''
             then Some (no_p_outcome\<lparr>p_success := True,
                          p_info := Some (case reply_info m of None \<Rightarrow> [] | Some i \<Rightarrow> i)\<rparr>)
             else None) tap) p"

section \<open>The write handler of the command line (\<^verbatim>\<open>cli.py\<close>)\<close>

text \<open>
  \<^verbatim>\<open>do_write\<close> asks before it writes and, when the write reports a duplicate, asks again
  before it erases and writes once more. \<open>confirms\<close> holds the answers given to the coming
  \<^verbatim>\<open>Confirm.ask\<close> prompts, in order; a prompt with no answer left waits. The handler
  returns nothing: the model gives the session and the answers it leaves. What it prints
  and what it logs to the tag database is not part of the model.
\<close>

function do_write :: "reader \<Rightarrow> bool list \<Rightarrow> bytes \<Rightarrow> unit res \<times> reader \<times> bool list" where
  "do_write r confirms ndef_data =
     (case confirms of
        [] \<Rightarrow> (Blocks, r, [])
      | proceed # rest \<Rightarrow>
          if \<not> proceed then (Returns (), r, rest)
          else (case write_ndef r ndef_data True of
                  (Blocks, r1) \<Rightarrow> (Blocks, r1, rest)
                | (Raises e, r1) \<Rightarrow> (Raises e, r1, rest)
                | (Returns result, r1) \<Rightarrow>
                    if success result then (Returns (), r1, rest)
                    else if duplicate result = Some True then
                      (case rest of
                         [] \<Rightarrow> (Blocks, r1, [])
                       | overwrite # rest' \<Rightarrow>
                           if overwrite then
                             (case erase_tag r1 True of
                                (Blocks, r2) \<Rightarrow> (Blocks, r2, rest')
                              | (Raises e, r2) \<Rightarrow> (Raises e, r2, rest')
                              | (Returns erase_result, r2) \<Rightarrow>
                                  if success erase_result then do_write r2 rest' ndef_data
                                  else (Returns (), r2, rest'))
                           else (Returns (), r1, rest'))
                    else (Returns (), r1, rest)))"
  by pat_completeness auto
termination
  by (relation "measure (\<lambda>(r, confirms, d). length confirms)") simp_all

declare do_write.simps [simp del]

section \<open>The record header\<close>

definition mbme :: "int \<Rightarrow> int" where
  \<comment> \<open>the flags of \<^verbatim>\<open>_make_ndef_record\<close> before the short-record bit, for
     \<^verbatim>\<open>is_first = is_last = True\<close>\<close>
  "mbme tnf = ((tnf AND 7) OR 128) OR 64"

lemma and7_mod: "(tnf::int) AND 7 = tnf mod 8"
proof -
  have "tnf AND mask 3 = tnf mod 2 ^ 3"
    by (simp flip: take_bit_eq_mask add: take_bit_eq_mod)
  then show ?thesis by (simp add: mask_eq_exp_minus_1)
qed

lemma mbme_cases:
  "mbme tnf \<in> {192, 193, 194, 195, 196, 197, 198, 199} \<and> mbme tnf = 192 + tnf mod 8"
proof -
  have "0 \<le> tnf mod 8" "tnf mod 8 < 8" by simp_all
  then consider "tnf mod 8 = 0" | "tnf mod 8 = 1" | "tnf mod 8 = 2" | "tnf mod 8 = 3"
    | "tnf mod 8 = 4" | "tnf mod 8 = 5" | "tnf mod 8 = 6" | "tnf mod 8 = 7" by linarith
  then show ?thesis unfolding mbme_def and7_mod by cases simp_all
qed

lemma flags_long:
  "0 \<le> mbme tnf" "mbme tnf \<le> 255"
  "bit (word_of_int (mbme tnf) :: byte) 7" "bit (word_of_int (mbme tnf) :: byte) 6"
  "\<not> bit (word_of_int (mbme tnf) :: byte) 4"
  "uint ((word_of_int (mbme tnf) :: byte) AND 7) = tnf AND 7"
  using mbme_cases[of tnf] unfolding and7_mod by auto

lemma flags_short:
  "0 \<le> mbme tnf OR 16" "mbme tnf OR 16 \<le> 255"
  "bit (word_of_int (mbme tnf OR 16) :: byte) 7" "bit (word_of_int (mbme tnf OR 16) :: byte) 6"
  "bit (word_of_int (mbme tnf OR 16) :: byte) 4"
  "uint ((word_of_int (mbme tnf OR 16) :: byte) AND 7) = tnf AND 7"
  using mbme_cases[of tnf] unfolding and7_mod by auto


lemma unat_woi_byte: "0 \<le> k \<Longrightarrow> k < 256 \<Longrightarrow> unat (word_of_int k :: byte) = nat k"
  by (simp add: unat_eq_nat_uint uint_word_of_int)
lemma be4_aux:
  fixes n a b c x y z :: nat
  shows "256 * a + x = n \<Longrightarrow> 256 * b + y = a \<Longrightarrow> 256 * c + z = b \<Longrightarrow>
    16777216 * c + 65536 * z + y * 256 + x = n"
  by linarith
lemma be4_nat:
  fixes n :: nat
  shows "16777216 * (n div 16777216) + 65536 * (n div 65536 mod 256) +
         n div 256 mod 256 * 256 + n mod 256 = n"
proof -
  have b': "n div 65536 = n div 256 div 256"
    using div_mult2_eq[of n 256 256] by simp
  have "n div (65536 * 256) = n div 65536 div 256"
    by (rule div_mult2_eq)
  then have c': "n div 16777216 = n div 256 div 256 div 256"
    unfolding b' by simp
  show ?thesis
    unfolding b' c'
    by (rule be4_aux; rule mult_div_mod_eq)
qed

lemma be_nat_I:
  assumes "n < 2 ^ 32"
  shows "be_nat [word_of_int (int n div 16777216), word_of_int (int n div 65536 mod 256),
               word_of_int (int n div 256 mod 256), word_of_int (int n mod 256)] = n"
proof -
  have d: "int n div 16777216 = int (n div 16777216)" "int n div 65536 mod 256 = int (n div 65536 mod 256)"
    "int n div 256 mod 256 = int (n div 256 mod 256)" "int n mod 256 = int (n mod 256)"
    by (simp_all add: zdiv_int zmod_int)
  have lt: "n div 16777216 < 256" using assms by simp
  have u: "\<And>k. k < 256 \<Longrightarrow> unat (word_of_int (int k) :: byte) = k"
    by (simp add: unat_of_nat)
  have "be_nat [word_of_int (int (n div 16777216)), word_of_int (int (n div 65536 mod 256)),
               word_of_int (int (n div 256 mod 256)), word_of_int (int (n mod 256))]
       = ((n div 16777216 * 256 + n div 65536 mod 256) * 256 + n div 256 mod 256) * 256 + n mod 256"
    unfolding be_nat_def foldl.simps u[OF lt] by (simp add: unat_of_nat)
  also have "\<dots> = 16777216 * (n div 16777216) + 65536 * (n div 65536 mod 256) +
         n div 256 mod 256 * 256 + n mod 256"
    by (simp only: distrib_right mult.assoc mult.commute[of _ 256]) simp
  also have "\<dots> = n" by (rule be4_nat)
  finally show ?thesis unfolding d .
qed

lemma make_ndef_record_short:
  assumes "length payload \<le> 255"
  shows "make_ndef_record tnf rec_type payload True True =
    (if length rec_type \<le> 255
     then Inr (word_of_int (mbme tnf OR 16) # of_nat (length rec_type) #
          [of_nat (length payload)] @ rec_type @ payload)
     else Inl StructError)"
  using assms flags_short(1,2)[of tnf] by (simp add: make_ndef_record_def Let_def flip: mbme_def)

lemma make_ndef_record_long:
  assumes "\<not> length payload \<le> 255"
  shows "make_ndef_record tnf rec_type payload True True =
    (if length rec_type \<le> 255 \<and> length payload < 2 ^ 32
     then Inr (word_of_int (mbme tnf) # of_nat (length rec_type) #
          [word_of_int (int (length payload) div 16777216),
           word_of_int (int (length payload) div 65536 mod 256),
           word_of_int (int (length payload) div 256 mod 256),
           word_of_int (int (length payload) mod 256)] @ rec_type @ payload)
     else Inl StructError)"
  using assms flags_long(1,2)[of tnf] by (simp add: make_ndef_record_def Let_def flip: mbme_def)

lemma header_props_short:
  fixes tnf :: int and rec_type payload :: bytes
  assumes "length payload \<le> 255"
  defines "r \<equiv> word_of_int (mbme tnf OR 16) # of_nat (length rec_type) #
          [of_nat (length payload)] @ rec_type @ payload"
  shows "\<exists>flag lenf. r = flag # of_nat (length rec_type) # lenf @ rec_type @ payload \<and>
         bit flag 7 \<and> bit flag 6 \<and> uint (flag AND 7) = tnf AND 7 \<and>
         (tnf \<in> {0..7} \<longrightarrow> uint (flag AND 7) = tnf) \<and>
         (length payload \<le> 255 \<longrightarrow> bit flag 4 \<and> lenf = [of_nat (length payload)]) \<and>
         (256 \<le> length payload \<longrightarrow>
            \<not> bit flag 4 \<and> length lenf = 4 \<and> be_nat lenf = length payload)"
proof (intro exI conjI impI)
  show "r = word_of_int (mbme tnf OR 16) # of_nat (length rec_type) #
          [of_nat (length payload)] @ rec_type @ payload" by (simp add: r_def)
  show "bit (word_of_int (mbme tnf OR 16) :: byte) 7" by (rule flags_short)
  show "bit (word_of_int (mbme tnf OR 16) :: byte) 6" by (rule flags_short)
  show "bit (word_of_int (mbme tnf OR 16) :: byte) 4" by (rule flags_short)
  show "uint ((word_of_int (mbme tnf OR 16) :: byte) AND 7) = tnf AND 7" by (rule flags_short)
  show "uint ((word_of_int (mbme tnf OR 16) :: byte) AND 7) = tnf" if "tnf \<in> {0..7}"
    using that flags_short(6)[of tnf] by (simp add: and7_mod)
  show "[of_nat (length payload)] = [word_of_nat (length payload) :: byte]" by simp
  show "\<not> bit (word_of_int (mbme tnf OR 16) :: byte) 4" if "256 \<le> length payload"
    using that assms(1) by simp
  show "length [word_of_nat (length payload) :: byte] = 4" if "256 \<le> length payload"
    using that assms(1) by simp
  show "be_nat [word_of_nat (length payload) :: byte] = length payload" if "256 \<le> length payload"
    using that assms(1) by simp
qed

lemma header_props_long:
  fixes tnf :: int and rec_type payload :: bytes
  assumes "\<not> length payload \<le> 255" "length payload < 2 ^ 32"
  defines "lf \<equiv> [word_of_int (int (length payload) div 16777216),
           word_of_int (int (length payload) div 65536 mod 256),
           word_of_int (int (length payload) div 256 mod 256),
           word_of_int (int (length payload) mod 256) :: byte]"
  defines "r \<equiv> word_of_int (mbme tnf) # of_nat (length rec_type) # lf @ rec_type @ payload"
  shows "\<exists>flag lenf. r = flag # of_nat (length rec_type) # lenf @ rec_type @ payload \<and>
         bit flag 7 \<and> bit flag 6 \<and> uint (flag AND 7) = tnf AND 7 \<and>
         (tnf \<in> {0..7} \<longrightarrow> uint (flag AND 7) = tnf) \<and>
         (length payload \<le> 255 \<longrightarrow> bit flag 4 \<and> lenf = [of_nat (length payload)]) \<and>
         (256 \<le> length payload \<longrightarrow>
            \<not> bit flag 4 \<and> length lenf = 4 \<and> be_nat lenf = length payload)"
proof (intro exI conjI impI)
  show "r = word_of_int (mbme tnf) # of_nat (length rec_type) # lf @ rec_type @ payload"
    by (simp add: r_def)
  show "bit (word_of_int (mbme tnf) :: byte) 7" by (rule flags_long)
  show "bit (word_of_int (mbme tnf) :: byte) 6" by (rule flags_long)
  show "\<not> bit (word_of_int (mbme tnf) :: byte) 4" by (rule flags_long)
  show "uint ((word_of_int (mbme tnf) :: byte) AND 7) = tnf AND 7" by (rule flags_long)
  show "uint ((word_of_int (mbme tnf) :: byte) AND 7) = tnf" if "tnf \<in> {0..7}"
    using that flags_long(6)[of tnf] by (simp add: and7_mod)
  show "length lf = 4" by (simp add: lf_def)
  show "be_nat lf = length payload" unfolding lf_def by (rule be_nat_I[OF assms(2)])
  show "bit (word_of_int (mbme tnf) :: byte) 4" if "length payload \<le> 255"
    using that assms(1) by simp
  show "lf = [word_of_nat (length payload)]" if "length payload \<le> 255"
    using that assms(1) by simp
qed

text \<open>
  Claim C3. Every record the encoders build (message-begin and message-end both requested,
  as all of them do) starts with a flag byte whose bits 7 and 6 are set and whose low three
  bits are the TNF; a payload of at most 255 bytes (255 included) sets bit 4 and has a
  one-byte length, a payload of 256 bytes or more clears bit 4 and has a four-byte
  big-endian length. The record is built whenever the type has at most 255 bytes and the
  payload fewer than \<open>2 ^ 32\<close>.
\<close>

theorem make_ndef_record_header:
  "(length rec_type \<le> 255 \<and> length payload < 2 ^ 32 \<longrightarrow>
      (\<exists>r. make_ndef_record tnf rec_type payload True True = Inr r)) \<and>
   (\<forall>r. make_ndef_record tnf rec_type payload True True = Inr r \<longrightarrow>
      (\<exists>flag lenf. r = flag # of_nat (length rec_type) # lenf @ rec_type @ payload \<and>
         bit flag 7 \<and> bit flag 6 \<and> uint (flag AND 7) = tnf AND 7 \<and>
         (tnf \<in> {0..7} \<longrightarrow> uint (flag AND 7) = tnf) \<and>
         (length payload \<le> 255 \<longrightarrow> bit flag 4 \<and> lenf = [of_nat (length payload)]) \<and>
         (256 \<le> length payload \<longrightarrow>
            \<not> bit flag 4 \<and> length lenf = 4 \<and> be_nat lenf = length payload)))"
proof (intro conjI allI impI)
  assume a: "length rec_type \<le> 255 \<and> length payload < 2 ^ 32"
  show "\<exists>r. make_ndef_record tnf rec_type payload True True = Inr r"
  proof (cases "length payload \<le> 255")
    case True
    then show ?thesis using a by (simp add: make_ndef_record_short)
  next
    case False
    then show ?thesis using a by (simp add: make_ndef_record_long)
  qed
next
  fix r assume r: "make_ndef_record tnf rec_type payload True True = Inr r"
  show "\<exists>flag lenf. r = flag # of_nat (length rec_type) # lenf @ rec_type @ payload \<and>
         bit flag 7 \<and> bit flag 6 \<and> uint (flag AND 7) = tnf AND 7 \<and>
         (tnf \<in> {0..7} \<longrightarrow> uint (flag AND 7) = tnf) \<and>
         (length payload \<le> 255 \<longrightarrow> bit flag 4 \<and> lenf = [of_nat (length payload)]) \<and>
         (256 \<le> length payload \<longrightarrow>
            \<not> bit flag 4 \<and> length lenf = 4 \<and> be_nat lenf = length payload)"
  proof (cases "length payload \<le> 255")
    case True
    from r have "r = word_of_int (mbme tnf OR 16) # of_nat (length rec_type) #
          [of_nat (length payload)] @ rec_type @ payload"
      unfolding make_ndef_record_short[OF True] by (simp split: if_splits)
    then show ?thesis
      using header_props_short[OF True, of tnf rec_type] by (simp only:)
  next
    case False
    from r have n: "length payload < 2 ^ 32" and "r = word_of_int (mbme tnf) # of_nat (length rec_type) #
          [word_of_int (int (length payload) div 16777216),
           word_of_int (int (length payload) div 65536 mod 256),
           word_of_int (int (length payload) div 256 mod 256),
           word_of_int (int (length payload) mod 256)] @ rec_type @ payload"
      unfolding make_ndef_record_long[OF False] by (simp_all split: if_splits)
    then show ?thesis
      using header_props_long[OF False n, of tnf rec_type] by (simp only:)
  qed
qed


theorem make_ndef_record_header_witness:
  "make_ndef_record 1 (blit ''U'') [4, 0x61] True True = Inr [0xD1, 1, 2, 0x55, 4, 0x61] \<and>
   (\<exists>flag lenf. [0xD1, 1, 2, 0x55, 4, 0x61 :: byte] = flag # 1 # lenf @ [0x55] @ [4, 0x61] \<and>
      bit flag 7 \<and> bit flag 6 \<and> bit flag 4 \<and> uint (flag AND 7) = 1 \<and> lenf = [2])"
proof -
  have e: "make_ndef_record 1 (blit ''U'') [4, 0x61] True True = Inr [0xD1, 1, 2, 0x55, 4, 0x61]"
    by (simp add: make_ndef_record_def blit_def)
  from make_ndef_record_header[where tnf = 1 and rec_type = "blit ''U''" and payload = "[4, 0x61]"]
  have "\<forall>r. make_ndef_record 1 (blit ''U'') [4, 0x61] True True = Inr r \<longrightarrow>
      (\<exists>flag lenf. r = flag # of_nat (length (blit ''U'')) # lenf @ blit ''U'' @ [4, 0x61] \<and>
         bit flag 7 \<and> bit flag 6 \<and> uint (flag AND 7) = 1 AND 7 \<and>
         ((1::int) \<in> {0..7} \<longrightarrow> uint (flag AND 7) = 1) \<and>
         (length [4::byte, 0x61] \<le> 255 \<longrightarrow> bit flag 4 \<and> lenf = [of_nat (length [4::byte, 0x61])]) \<and>
         (256 \<le> length [4::byte, 0x61] \<longrightarrow>
            \<not> bit flag 4 \<and> length lenf = 4 \<and> be_nat lenf = length [4::byte, 0x61]))"
    by (rule conjunct2)
  with e obtain flag lenf where
    "[0xD1, 1, 2, 0x55, 4, 0x61] = flag # of_nat (length (blit ''U'')) # lenf @ blit ''U'' @ [4, 0x61]"
    "bit flag 7" "bit flag 6" "uint (flag AND 7) = 1" "bit flag 4" "lenf = [2]"
    by auto
  then have "[0xD1, 1, 2, 0x55, 4, 0x61 :: byte] = flag # 1 # lenf @ [0x55] @ [4, 0x61] \<and>
      bit flag 7 \<and> bit flag 6 \<and> bit flag 4 \<and> uint (flag AND 7) = 1 \<and> lenf = [2]"
    by (simp add: blit_def)
  then have "\<exists>flag lenf. [0xD1, 1, 2, 0x55, 4, 0x61 :: byte] = flag # 1 # lenf @ [0x55] @ [4, 0x61] \<and>
      bit flag 7 \<and> bit flag 6 \<and> bit flag 4 \<and> uint (flag AND 7) = 1 \<and> lenf = [2]"
    by (intro exI[of _ flag] exI[of _ lenf])
  with e show ?thesis by (rule conjI)
qed


section \<open>Strings and codecs\<close>

lemma unat_of_nat_byte: "n < 256 \<Longrightarrow> unat (of_nat n :: byte) = n"
  by (simp add: unat_of_nat)

lemma cont_byte:
  assumes "r < 64"
  shows "unat (of_nat (128 + r) :: byte) = 128 + r" "is_cont (of_nat (128 + r))"
    "cont (of_nat (128 + r)) = r"
proof -
  show u: "unat (of_nat (128 + r) :: byte) = 128 + r"
    by (rule unat_of_nat_byte) (use assms in simp)
  show "is_cont (of_nat (128 + r))" unfolding is_cont_def u using assms by simp
  have "(128 + r) mod 64 = r" using assms by (simp add: mod_add_eq[symmetric])
  then show "cont (of_nat (128 + r)) = r" unfolding cont_def u .
qed

lemma next1:
  assumes "c < 128"
  shows "utf8_next (of_nat c) rest = (Some c, rest)"
  using assms by (simp add: utf8_next.simps unat_of_nat_byte)

lemma next2:
  assumes "2 \<le> q" "q < 32" "r < 64"
  shows "utf8_next (of_nat (192 + q)) (of_nat (128 + r) # rest) = (Some (q * 64 + r), rest)"
proof -
  have u: "unat (of_nat (192 + q) :: byte) = 192 + q"
    by (rule unat_of_nat_byte) (use assms in simp)
  show ?thesis
    unfolding utf8_next.simps u Let_def using assms cont_byte[OF assms(3)] by simp
qed

lemma next3:
  assumes "q1 < 16" "q2 < 64" "r < 64" "q1 = 0 \<longrightarrow> 32 \<le> q2" "q1 = 13 \<longrightarrow> q2 < 32"
  shows "utf8_next (of_nat (224 + q1)) (of_nat (128 + q2) # of_nat (128 + r) # rest)
         = (Some ((q1 * 64 + q2) * 64 + r), rest)"
proof -
  have u: "unat (of_nat (224 + q1) :: byte) = 224 + q1"
    by (rule unat_of_nat_byte) (use assms in simp)
  show ?thesis
    unfolding utf8_next.simps u Let_def
    using assms cont_byte[OF assms(2)] cont_byte[OF assms(3)] by auto
qed

lemma next4:
  assumes "q0 < 5" "q1 < 64" "q2 < 64" "r < 64" "q0 = 0 \<longrightarrow> 16 \<le> q1" "q0 = 4 \<longrightarrow> q1 < 16"
  shows "utf8_next (of_nat (240 + q0))
           (of_nat (128 + q1) # of_nat (128 + q2) # of_nat (128 + r) # rest)
         = (Some (((q0 * 64 + q1) * 64 + q2) * 64 + r), rest)"
proof -
  have u: "unat (of_nat (240 + q0) :: byte) = 240 + q0"
    by (rule unat_of_nat_byte) (use assms in simp)
  show ?thesis
    unfolding utf8_next.simps u Let_def
    using assms cont_byte[OF assms(2)] cont_byte[OF assms(3)] cont_byte[OF assms(4)] by auto
qed


definition valid_cp :: "nat \<Rightarrow> bool" where
  "valid_cp c \<longleftrightarrow> c < 0xD800 \<or> (0xDFFF < c \<and> c < 0x110000)"

lemma digits64:
  fixes c :: nat
  shows "c div 4096 = c div 64 div 64" "c div 262144 = c div 64 div 64 div 64"
    "c = (c div 64) * 64 + c mod 64"
proof -
  show a: "c div 4096 = c div 64 div 64"
    using div_mult2_eq[of c 64 64] by simp
  have "c div (4096 * 64) = c div 4096 div 64" by (rule div_mult2_eq)
  then show "c div 262144 = c div 64 div 64 div 64" unfolding a by simp
  show "c = (c div 64) * 64 + c mod 64" by simp
qed

lemma utf8_cp_next:
  assumes "utf8_cp c = Inr b"
  shows "valid_cp c \<and> b \<noteq> [] \<and> length b \<le> 4 \<and>
         utf8_next (hd b) (tl b @ rest) = (Some c, rest)"
proof -
  define q where "q = c div 64"
  define r where "r = c mod 64"
  define q2 where "q2 = q mod 64"
  define p where "p = q div 64"
  define p2 where "p2 = p mod 64"
  define t where "t = p div 64"
  have r: "r < 64" and q2: "q2 < 64" and p2: "p2 < 64"
    by (simp_all add: r_def q2_def p2_def)
  have c: "c = q * 64 + r" by (simp add: q_def r_def)
  have q: "q = p * 64 + q2" by (simp add: p_def q2_def)
  have p: "p = t * 64 + p2" by (simp add: t_def p2_def)
  have d: "c div 64 = q" "c mod 64 = r" "c div 64 mod 64 = q2" "c div 4096 = p"
    "c div 4096 mod 64 = p2" "c div 262144 = t"
    unfolding digits64(1,2) by (simp_all add: q_def r_def q2_def p_def p2_def t_def)
  consider (1) "c < 0x80" | (2) "0x80 \<le> c" "c < 0x800"
    | (3) "0x800 \<le> c" "c < 0x10000" | (4) "0x10000 \<le> c" by linarith
  then show ?thesis
  proof cases
    case 1
    with assms have b: "b = [of_nat c]" by (simp add: utf8_cp_def)
    have v: "valid_cp c" using 1 unfolding valid_cp_def by linarith
    show ?thesis unfolding b using v next1[OF 1] by simp
  next
    case 2
    with assms have b: "b = [of_nat (192 + q), of_nat (128 + r)]"
      unfolding utf8_cp_def d q2_def[symmetric] p2_def[symmetric] by simp
    have "2 \<le> q" "q < 32" using 2 c r by linarith+
    from next2[OF this r, of rest]
    have n: "utf8_next (hd b) (tl b @ rest) = (Some c, rest)" unfolding b c by simp
    have v: "valid_cp c" using 2 unfolding valid_cp_def by linarith
    show ?thesis using v n by (simp add: b)
  next
    case 3
    with assms have ns: "\<not> (0xD800 \<le> c \<and> c \<le> 0xDFFF)"
      and b: "b = [of_nat (224 + p), of_nat (128 + q2), of_nat (128 + r)]"
      unfolding utf8_cp_def d q2_def[symmetric] p2_def[symmetric] by (simp_all split: if_splits)
    have "p < 16" "p = 0 \<longrightarrow> 32 \<le> q2" "p = 13 \<longrightarrow> q2 < 32"
      using 3 ns c q r q2 by linarith+
    from next3[OF this(1) q2 r this(2,3), of rest]
    have n: "utf8_next (hd b) (tl b @ rest) = (Some c, rest)" unfolding b c q by simp
    have v: "valid_cp c" using 3 ns unfolding valid_cp_def by linarith
    show ?thesis using v n by (simp add: b)
  next
    case 4
    with assms have lt: "c < 0x110000"
      and b: "b = [of_nat (240 + t), of_nat (128 + p2), of_nat (128 + q2), of_nat (128 + r)]"
      unfolding utf8_cp_def d q2_def[symmetric] p2_def[symmetric] by (simp_all split: if_splits)
    have "t < 5" "t = 0 \<longrightarrow> 16 \<le> p2" "t = 4 \<longrightarrow> p2 < 16"
      using 4 lt c q p r q2 p2 by linarith+
    from next4[OF this(1) p2 q2 r this(2,3), of rest]
    have n: "utf8_next (hd b) (tl b @ rest) = (Some c, rest)" unfolding b c q p by simp
    have v: "valid_cp c" using 4 lt unfolding valid_cp_def by linarith
    show ?thesis using v n by (simp add: b)
  qed
qed


lemma utf8_encode_Cons_Inr:
  "utf8_encode (c # s) = Inr bs \<longleftrightarrow>
     (\<exists>b bs'. utf8_cp c = Inr b \<and> utf8_encode s = Inr bs' \<and> bs = b @ bs')"
  by (auto split: sum.splits)

lemma utf8_roundtrip:
  "utf8_encode s = Inr bs \<Longrightarrow> utf8_decode_replace (bs @ rest) = s @ utf8_decode_replace rest"
proof (induction s arbitrary: bs)
  case Nil
  then show ?case by simp
next
  case (Cons c s)
  then obtain b bs' where b: "utf8_cp c = Inr b" and s: "utf8_encode s = Inr bs'"
    and bs: "bs = b @ bs'"
    unfolding utf8_encode_Cons_Inr by blast
  from utf8_cp_next[OF b, of "bs' @ rest"]
  have ne: "b \<noteq> []" and n: "utf8_next (hd b) (tl b @ bs' @ rest) = (Some c, bs' @ rest)"
    by simp_all
  have "bs @ rest = hd b # (tl b @ bs' @ rest)" using ne bs by simp
  then have "utf8_decode_replace (bs @ rest) = c # utf8_decode_replace (bs' @ rest)"
    using n by simp
  then show ?case using Cons.IH[OF s] by simp
qed

lemma utf8_roundtrip_whole:
  "utf8_encode s = Inr bs \<Longrightarrow> utf8_decode_replace bs = s"
  using utf8_roundtrip[of s bs "[]"] by simp

lemma utf8_encode_valid:
  "utf8_encode s = Inr bs \<Longrightarrow> (\<forall>c \<in> set s. valid_cp c) \<and> length bs \<le> 4 * length s"
proof (induction s arbitrary: bs)
  case Nil
  then show ?case by simp
next
  case (Cons c s)
  then obtain b bs' where b: "utf8_cp c = Inr b" and s: "utf8_encode s = Inr bs'"
    and bs: "bs = b @ bs'"
    unfolding utf8_encode_Cons_Inr by blast
  from utf8_cp_next[OF b, of "[]"] have "valid_cp c" "length b \<le> 4" by simp_all
  then show ?case using Cons.IH[OF s] bs by simp
qed

lemma utf8_cp_total: "valid_cp c \<Longrightarrow> \<exists>b. utf8_cp c = Inr b"
  unfolding valid_cp_def utf8_cp_def by auto

lemma utf8_encode_total: "\<forall>c \<in> set s. valid_cp c \<Longrightarrow> \<exists>bs. utf8_encode s = Inr bs"
proof (induction s)
  case Nil
  then show ?case by simp
next
  case (Cons c s)
  then obtain b bs' where "utf8_cp c = Inr b" "utf8_encode s = Inr bs'"
    using utf8_cp_total[of c] by auto
  then show ?case by simp
qed

lemma utf8_encode_error:
  "utf8_encode s = Inl e \<Longrightarrow> e = UnicodeEncodeError \<and> (\<exists>c \<in> set s. \<not> valid_cp c)"
proof (induction s)
  case Nil
  then show ?case by simp
next
  case (Cons c s)
  show ?case
  proof (cases "utf8_cp c")
    case (Inl e')
    then have "e' = UnicodeEncodeError" "\<not> valid_cp c"
      using utf8_cp_total[of c] by (auto simp: utf8_cp_def split: if_splits)
    then show ?thesis using Cons.prems Inl by simp
  next
    case (Inr b)
    then show ?thesis using Cons by (auto split: sum.splits)
  qed
qed

lemma utf8_encode_ascii:
  "\<forall>c \<in> set s. c < 128 \<Longrightarrow> utf8_encode s = Inr (map of_nat s)"
  by (induction s) (simp_all add: utf8_cp_def)

lemma ascii_roundtrip:
  assumes "ascii_encode s = Inr bs"
  shows "ascii_decode bs = Inr s" "length bs = length s" "\<forall>c \<in> set s. c < 128"
proof -
  from assms have a: "\<forall>c \<in> set s. c < 128" and bs: "bs = map of_nat s"
    by (simp_all add: ascii_encode_def split: if_splits)
  show "\<forall>c \<in> set s. c < 128" by (rule a)
  show "length bs = length s" by (simp add: bs)
  have u: "unat (of_nat c :: byte) = c" if "c \<in> set s" for c
    by (rule unat_of_nat_byte) (use a that in auto)
  have "map unat bs = s" unfolding bs using u by (simp add: map_idI)
  moreover have "\<forall>b \<in> set bs. unat b < 128" unfolding bs using u a by simp
  ultimately show "ascii_decode bs = Inr s" by (simp add: ascii_decode_def)
qed

lemma strip_length: "length (strip s) \<le> length s"
proof -
  have "length (strip s) \<le> length (dropWhile isspace s)"
    unfolding strip_def using length_dropWhile_le[of isspace "rev (dropWhile isspace s)"] by simp
  also have "\<dots> \<le> length s" by (rule length_dropWhile_le)
  finally show ?thesis .
qed

lemma strip_set: "set (strip s) \<subseteq> set s"
proof -
  have "set (strip s) \<subseteq> set (dropWhile isspace s)"
    unfolding strip_def using set_dropWhileD[of _ isspace "rev (dropWhile isspace s)"] by auto
  then show ?thesis using set_dropWhileD[of _ isspace s] by auto
qed

lemma strip_id:
  assumes "s = [] \<or> (\<not> isspace (hd s) \<and> \<not> isspace (last s))"
  shows "strip s = s"
proof (cases "s = []")
  case True
  then show ?thesis by (simp add: strip_def)
next
  case False
  with assms have h: "\<not> isspace (hd s)" and l: "\<not> isspace (last s)" by simp_all
  have 1: "dropWhile isspace s = s" using False h by (cases s) simp_all
  have hl: "hd (rev s) = last s" using False by (simp add: hd_rev)
  obtain x xs where rs: "rev s = x # xs" using False by (cases "rev s") simp_all
  have "x = last s" using hl unfolding rs by simp
  then have "dropWhile isspace (x # xs) = x # xs" using l by simp
  then have 2: "dropWhile isspace (rev s) = rev s" unfolding rs .
  show ?thesis unfolding strip_def 1 2 by simp
qed


section \<open>The TLV container\<close>

text \<open>
  What a reader of the tag sees in an image: the bytes between the length field and the
  terminator, and the length the field declares. The length field has one byte unless that
  byte is \<open>0xFF\<close>, which announces two more bytes, big-endian.
\<close>

definition tlv_enclosed :: "bytes \<Rightarrow> bytes" where
  "tlv_enclosed bs = (if bs ! 1 \<noteq> 0xFF then butlast (drop 2 bs) else butlast (drop 4 bs))"

definition tlv_declared_length :: "bytes \<Rightarrow> nat" where
  "tlv_declared_length bs = (if bs ! 1 \<noteq> 0xFF then unat (bs ! 1) else be_nat [bs ! 2, bs ! 3])"

definition tlv_image :: "bytes \<Rightarrow> bytes \<Rightarrow> bool" where
  "tlv_image bs record \<longleftrightarrow>
     hd bs = 0x03 \<and> last bs = 0xFE \<and> tlv_enclosed bs = record \<and>
     tlv_declared_length bs = length record \<and>
     (if length record < 255
      then bs = [0x03, bs ! 1] @ record @ [0xFE]
      else bs = [0x03, 0xFF, bs ! 2, bs ! 3] @ record @ [0xFE])"


lemma of_nat_byte_neq_FF: "n < 255 \<Longrightarrow> (of_nat n :: byte) \<noteq> 0xFF"
proof
  assume "n < 255" "(of_nat n :: byte) = 0xFF"
  then have "unat (of_nat n :: byte) = 255" by simp
  with \<open>n < 255\<close> show False by (simp add: unat_of_nat)
qed

lemma be_nat_H:
  assumes "n \<le> 65535"
  shows "be_nat [word_of_int (int n div 256), word_of_int (int n mod 256) :: byte] = n"
proof -
  have d: "int n div 256 = int (n div 256)" "int n mod 256 = int (n mod 256)"
    by (simp_all add: zdiv_int zmod_int)
  have lt: "n div 256 < 256" using assms by simp
  have "be_nat [word_of_int (int (n div 256)), word_of_int (int (n mod 256)) :: byte]
       = n div 256 * 256 + n mod 256"
    unfolding be_nat_def foldl.simps using lt by (simp add: unat_of_nat)
  also have "\<dots> = n" by simp
  finally show ?thesis unfolding d .
qed

lemma wrap_tlv_short:
  "length m < 255 \<Longrightarrow> wrap_tlv m = Inr ([0x03, of_nat (length m)] @ m @ [0xFE])"
  by (simp add: wrap_tlv_def Let_def)

lemma wrap_tlv_long:
  "\<not> length m < 255 \<Longrightarrow> wrap_tlv m =
     (if length m \<le> 65535
      then Inr ([0x03, 0xFF, word_of_int (int (length m) div 256),
                 word_of_int (int (length m) mod 256)] @ m @ [0xFE])
      else Inl StructError)"
  by (simp add: wrap_tlv_def Let_def)

lemma wrap_tlv_image:
  assumes "wrap_tlv m = Inr bs"
  shows "tlv_image bs m"
proof (cases "length m < 255")
  case True
  with assms have bs: "bs = [0x03, of_nat (length m)] @ m @ [0xFE]"
    by (simp add: wrap_tlv_short)
  have n: "(of_nat (length m) :: byte) \<noteq> 0xFF" using True by (rule of_nat_byte_neq_FF)
  show ?thesis
    using True n unfolding bs tlv_image_def tlv_enclosed_def tlv_declared_length_def
    by (simp add: unat_of_nat butlast_append)
next
  case False
  with assms have le: "length m \<le> 65535"
    and bs: "bs = [0x03, 0xFF, word_of_int (int (length m) div 256),
                 word_of_int (int (length m) mod 256)] @ m @ [0xFE]"
    by (simp_all add: wrap_tlv_long split: if_splits)
  show ?thesis
    using False be_nat_H[OF le] unfolding bs tlv_image_def tlv_enclosed_def tlv_declared_length_def
    by (simp add: butlast_append)
qed


lemma rbind_Inr: "rbind m f = Inr y \<longleftrightarrow> (\<exists>x. m = Inr x \<and> f x = Inr y)"
  by (cases m) (simp_all add: rbind_def)

lemma record_wrap_image:
  assumes "rbind (make_ndef_record tnf ty payload True True) wrap_tlv = Inr bs"
  shows "\<exists>tnf ty payload record.
           make_ndef_record tnf ty payload True True = Inr record \<and> tlv_image bs record"
proof -
  from assms obtain rcd where "make_ndef_record tnf ty payload True True = Inr rcd"
    and "wrap_tlv rcd = Inr bs"
    by (auto simp: rbind_Inr)
  then show ?thesis using wrap_tlv_image by blast
qed

lemma encode_url_image:
  "encode_url url = Inr bs \<Longrightarrow>
   \<exists>tnf ty payload record.
      make_ndef_record tnf ty payload True True = Inr record \<and> tlv_image bs record"
  unfolding encode_url_def Let_def
  by (auto simp: rbind_Inr split: prod.splits dest!: record_wrap_image[unfolded rbind_Inr])


lemma encode_text_image:
  "encode_text text lang = Inr bs \<Longrightarrow>
   \<exists>tnf ty payload record.
      make_ndef_record tnf ty payload True True = Inr record \<and> tlv_image bs record"
  unfolding encode_text_def Let_def
  by (auto simp: rbind_Inr dest!: record_wrap_image[unfolded rbind_Inr])

lemma encode_vcard_image:
  "encode_vcard name phone email org title url address note = Inr bs \<Longrightarrow>
   \<exists>tnf ty payload record.
      make_ndef_record tnf ty payload True True = Inr record \<and> tlv_image bs record"
  unfolding encode_vcard_def Let_def
  by (auto simp: rbind_Inr dest!: record_wrap_image[unfolded rbind_Inr])

lemma encode_phone_image:
  "encode_phone phone = Inr bs \<Longrightarrow>
   \<exists>tnf ty payload record.
      make_ndef_record tnf ty payload True True = Inr record \<and> tlv_image bs record"
  unfolding encode_phone_def Let_def
  by (auto simp: rbind_Inr dest!: record_wrap_image[unfolded rbind_Inr])

lemma encode_email_image:
  "encode_email email subject body = Inr bs \<Longrightarrow>
   \<exists>tnf ty payload record.
      make_ndef_record tnf ty payload True True = Inr record \<and> tlv_image bs record"
  unfolding encode_email_def Let_def
  by (auto simp: rbind_Inr dest!: record_wrap_image[unfolded rbind_Inr])

lemma encode_social_image:
  "encode_social platform username = Inr bs \<Longrightarrow>
   \<exists>tnf ty payload record.
      make_ndef_record tnf ty payload True True = Inr record \<and> tlv_image bs record"
  unfolding encode_social_def Let_def
  by (auto split: option.splits dest: encode_url_image)

lemma encode_wifi_image:
  "encode_wifi ssid password auth_type hidden = Inr bs \<Longrightarrow>
   \<exists>tnf ty payload record.
      make_ndef_record tnf ty payload True True = Inr record \<and> tlv_image bs record"
  unfolding encode_wifi_def Let_def
  by (auto simp: rbind_Inr dest!: record_wrap_image[unfolded rbind_Inr])

section \<open>The decoder on malformed input\<close>

lemma get_ndef_payload_info_short:
  "length d < 5 \<Longrightarrow> get_ndef_payload_info d = Inr None"
  by (simp add: get_ndef_payload_info_def ndef_body_def)

lemma get_ndef_payload_info_not_ndef:
  "d \<noteq> [] \<Longrightarrow> hd d \<noteq> 0x03 \<Longrightarrow> get_ndef_payload_info d = Inr None"
  by (cases d) (simp_all add: get_ndef_payload_info_def ndef_body_def getb_def rbind_def)

lemma rbind_Inl: "rbind m f = Inl e \<longleftrightarrow> m = Inl e \<or> (\<exists>x. m = Inr x \<and> f x = Inl e)"
  by (cases m) (simp_all add: rbind_def)

lemma getb_Inl: "getb d i = Inl e \<Longrightarrow> e = IndexError"
  by (simp add: getb_def split: if_splits)

lemma unpack_be_Inl: "unpack_be n bs = Inl e \<Longrightarrow> e = StructError"
  by (simp add: unpack_be_def split: if_splits)

lemma ascii_decode_Inl: "ascii_decode bs = Inl e \<Longrightarrow> e = UnicodeDecodeError"
  by (simp add: ascii_decode_def split: if_splits)

lemma interpret_record_Inl:
  "interpret_record rec_type tnf payload = Inl e \<Longrightarrow>
     e = IndexError \<or> (e = UnicodeDecodeError \<and> rec_type = lit ''T'' \<and> tnf = 1)"
  unfolding interpret_record_def Let_def
  by (auto simp: rbind_Inl split: if_splits dest: getb_Inl ascii_decode_Inl)

lemma ndef_body_Inl:
  "ndef_body d = Inl e \<Longrightarrow> e \<in> {IndexError, StructError, UnicodeDecodeError}"
  unfolding ndef_body_def Let_def
  by (auto simp: rbind_Inl split: if_splits prod.splits
           dest: getb_Inl unpack_be_Inl interpret_record_Inl)

lemma get_ndef_payload_info_Inl:
  "get_ndef_payload_info d = Inl e \<Longrightarrow> e = UnicodeDecodeError"
  unfolding get_ndef_payload_info_def
  by (auto split: sum.splits exn.splits dest: ndef_body_Inl)

text \<open>
  Claim C4 says that the decoder never raises. It returns no result for an input shorter
  than five bytes or one that does not start with \<open>0x03\<close>, and it catches every
  \<^verbatim>\<open>IndexError\<close> and \<^verbatim>\<open>struct.error\<close> (the lemmas above). The language code of a
  Text record, though, is decoded as strict ASCII, unlike every other string of the
  decoder: a Text record whose language code holds a byte from \<open>0x80\<close> on makes
  \<^verbatim>\<open>UnicodeDecodeError\<close> leave the function. The input below is such a record
  (TLV length 6, flags \<open>0xD1\<close>, type \<open>T\<close>, status byte 1, language byte \<open>0x80\<close>).
\<close>

theorem get_ndef_payload_info_raises:
  "get_ndef_payload_info [0x03, 0x06, 0xD1, 0x01, 0x02, 0x54, 0x01, 0x80, 0xFE]
     = Inl UnicodeDecodeError"
  by code_simp

section \<open>When the encoders return\<close>

lemma valid_cp_small: "c < 0xD800 \<Longrightarrow> valid_cp c"
  by (simp add: valid_cp_def)

lemma lit_small: "c \<in> set (lit s) \<Longrightarrow> c < 256"
proof -
  assume "c \<in> set (lit s)"
  then obtain x where c: "c = of_char x" by (auto simp: lit_def)
  have "(of_char x :: nat) mod 256 = of_char x" by (rule of_char_mod_256)
  then have "(of_char x :: nat) < 256" by (metis mod_less_divisor zero_less_numeral)
  then show ?thesis using c by simp
qed

lemma lit_valid: "c \<in> set (lit s) \<Longrightarrow> valid_cp c"
  using lit_small[of c s] by (simp add: valid_cp_def)

lemma length_lit: "length (lit s) = length s"
  by (simp add: lit_def)

lemma length_blit: "length (blit s) = length s"
  by (simp add: blit_def)

lemma record_wrap_total:
  assumes "length ty \<le> 255" "length ty + length payload + 6 \<le> 65535"
  shows "\<exists>bs. rbind (make_ndef_record tnf ty payload True True) wrap_tlv = Inr bs"
proof (cases "length payload \<le> 255")
  case True
  define r where "r = word_of_int (mbme tnf OR 16) # of_nat (length ty) #
          [of_nat (length payload)] @ ty @ payload"
  have m: "make_ndef_record tnf ty payload True True = Inr r"
    using assms(1) by (simp add: make_ndef_record_short[OF True] r_def)
  have "length r \<le> 65535" using assms(2) by (simp add: r_def)
  then have "\<exists>bs. wrap_tlv r = Inr bs"
    by (cases "length r < 255") (simp_all add: wrap_tlv_short wrap_tlv_long)
  then show ?thesis by (simp add: m rbind_def)
next
  case False
  define r where "r = word_of_int (mbme tnf) # of_nat (length ty) #
          [word_of_int (int (length payload) div 16777216),
           word_of_int (int (length payload) div 65536 mod 256),
           word_of_int (int (length payload) div 256 mod 256),
           word_of_int (int (length payload) mod 256)] @ ty @ payload"
  have "length payload < 2 ^ 32" using assms(2) by simp
  then have m: "make_ndef_record tnf ty payload True True = Inr r"
    using assms(1) by (simp add: make_ndef_record_long[OF False] r_def)
  have "length r \<le> 65535" using assms(2) by (simp add: r_def)
  then have "\<exists>bs. wrap_tlv r = Inr bs"
    by (cases "length r < 255") (simp_all add: wrap_tlv_short wrap_tlv_long)
  then show ?thesis by (simp add: m rbind_def)
qed

lemma record_wrap_error:
  assumes "rbind (make_ndef_record tnf ty payload True True) wrap_tlv = Inl e"
  shows "e = StructError"
proof (cases "make_ndef_record tnf ty payload True True")
  case (Inl e')
  then have "e' = StructError"
    by (cases "length payload \<le> 255")
       (simp_all add: make_ndef_record_short make_ndef_record_long split: if_splits)
  then show ?thesis using assms Inl by (simp add: rbind_def)
next
  case (Inr r)
  then have "wrap_tlv r = Inl e" using assms by (simp add: rbind_def)
  then show ?thesis
    by (cases "length r < 255") (simp_all add: wrap_tlv_short wrap_tlv_long split: if_splits)
qed

lemma utf8_encode_bounded:
  assumes "\<forall>c \<in> set s. valid_cp c"
  obtains u where "utf8_encode s = Inr u" "length u \<le> 4 * length s"
  using utf8_encode_total[OF assms] utf8_encode_valid by blast

lemma url_field:
  assumes "(case find (\<lambda>(prefix, code). startswith (lower url) prefix) tbl of
               None \<Rightarrow> (0, url)
             | Some (prefix, code) \<Rightarrow> (code, drop (length prefix) url)) = (pc, field)"
  shows "set field \<subseteq> set url" "length field \<le> length url"
  using assms by (auto split: option.splits dest: in_set_dropD)

lemma encode_url_total:
  assumes "\<forall>c \<in> set url. valid_cp c" "length url \<le> 16000"
  shows "\<exists>bs. encode_url url = Inr bs"
proof -
  obtain pc field where f:
    "(case find (\<lambda>(prefix, code). startswith (lower (strip url)) prefix)
                (sort_key (\<lambda>x. - int (length (fst x))) URI_PREFIXES) of
               None \<Rightarrow> (0, strip url)
             | Some (prefix, code) \<Rightarrow> (code, drop (length prefix) (strip url))) = (pc, field)"
    by (cases "(case find (\<lambda>(prefix, code). startswith (lower (strip url)) prefix)
                (sort_key (\<lambda>x. - int (length (fst x))) URI_PREFIXES) of
               None \<Rightarrow> (0, strip url)
             | Some (prefix, code) \<Rightarrow> (code, drop (length prefix) (strip url)))") auto
  from url_field[OF f] have "set field \<subseteq> set url" "length field \<le> length url"
    using strip_set[of url] strip_length[of url] by auto
  then have v: "\<forall>c \<in> set field. valid_cp c" and l: "length field \<le> 16000"
    using assms by auto
  from utf8_encode_bounded[OF v] obtain u where u: "utf8_encode field = Inr u"
    and lu: "length u \<le> 4 * length field" by blast
  have "\<exists>bs. rbind (make_ndef_record 1 (blit ''U'') (of_nat pc # u) True True) wrap_tlv = Inr bs"
    by (rule record_wrap_total) (use lu l in \<open>simp_all add: length_blit\<close>)
  then show ?thesis
    unfolding encode_url_def Let_def f by (simp add: u rbind_def)
qed


lemma make_ndef_record_Inl:
  "make_ndef_record tnf ty payload True True = Inl e \<Longrightarrow> e = StructError"
  by (cases "length payload \<le> 255")
     (simp_all add: make_ndef_record_short make_ndef_record_long split: if_splits)

lemma wrap_tlv_Inl: "wrap_tlv r = Inl e \<Longrightarrow> e = StructError"
  by (cases "length r < 255") (simp_all add: wrap_tlv_short wrap_tlv_long split: if_splits)

lemma utf8_encode_Inl: "utf8_encode s = Inl e \<Longrightarrow> e = UnicodeEncodeError"
  using utf8_encode_error by blast

lemma ascii_encode_Inl: "ascii_encode s = Inl e \<Longrightarrow> e = UnicodeEncodeError"
  by (simp add: ascii_encode_def split: if_splits)

lemma struct_pack_Inl: "struct_pack fs = Inl e \<Longrightarrow> e = StructError"
proof (induction fs)
  case Nil
  then show ?case by simp
next
  case (Cons f fs)
  have "pack1 f = Inl e' \<Longrightarrow> e' = StructError" for e'
    by (cases f) (simp_all split: if_splits)
  then show ?case using Cons by (auto split: sum.splits)
qed

lemma encode_url_error:
  "encode_url url = Inl e \<Longrightarrow> e = UnicodeEncodeError \<or> e = StructError"
  unfolding encode_url_def Let_def
  by (auto simp: rbind_Inl split: prod.splits dest: utf8_encode_Inl make_ndef_record_Inl wrap_tlv_Inl)

lemma encode_text_total:
  assumes "\<forall>c \<in> set msg. valid_cp c" "\<forall>c \<in> set lang. c < 128"
    "length msg + length lang \<le> 16000"
  shows "\<exists>bs. encode_text msg lang = Inr bs"
proof -
  have lb: "ascii_encode lang = Inr (map of_nat lang)"
    using assms(2) by (simp add: ascii_encode_def)
  have v: "\<forall>c \<in> set (strip msg). valid_cp c" using assms(1) strip_set[of msg] by auto
  from utf8_encode_bounded[OF v] obtain u where u: "utf8_encode (strip msg) = Inr u"
    and lu: "length u \<le> 4 * length (strip msg)" by blast
  have "\<exists>bs. rbind (make_ndef_record 1 (blit ''T'')
           (word_of_int (int (length (map of_nat lang :: bytes)) AND 0x3F)
            # map of_nat lang @ u) True True) wrap_tlv = Inr bs"
    by (rule record_wrap_total)
       (use lu assms(3) strip_length[of msg] in \<open>simp_all add: length_blit\<close>)
  then show ?thesis
    unfolding encode_text_def Let_def by (simp add: lb u rbind_def)
qed

lemma encode_text_error:
  "encode_text msg lang = Inl e \<Longrightarrow> e = UnicodeEncodeError \<or> e = StructError"
  unfolding encode_text_def Let_def
  by (auto simp: rbind_Inl dest: utf8_encode_Inl ascii_encode_Inl make_ndef_record_Inl wrap_tlv_Inl)

lemma encode_phone_total:
  assumes "\<forall>c \<in> set phone. valid_cp c" "length phone \<le> 16000"
  shows "\<exists>bs. encode_phone phone = Inr bs"
proof -
  define ph where "ph = filter (\<lambda>c. c \<noteq> 0x2D) (filter (\<lambda>c. c \<noteq> 0x20) (strip phone))"
  have "set ph \<subseteq> set phone" using strip_set[of phone] by (auto simp: ph_def)
  then have v: "\<forall>c \<in> set ph. valid_cp c" using assms(1) by auto
  have "length ph \<le> length (strip phone)"
    unfolding ph_def
    by (meson length_filter_le order_trans)
  then have l: "length ph \<le> 16000" using strip_length[of phone] assms(2) by simp
  from utf8_encode_bounded[OF v] obtain u where u: "utf8_encode ph = Inr u"
    and lu: "length u \<le> 4 * length ph" by blast
  have "\<exists>bs. rbind (make_ndef_record 1 (blit ''U'') (0x05 # u) True True) wrap_tlv = Inr bs"
    by (rule record_wrap_total) (use lu l in \<open>simp_all add: length_blit\<close>)
  then show ?thesis
    unfolding encode_phone_def Let_def ph_def[symmetric] by (simp add: u rbind_def)
qed

lemma encode_phone_error:
  "encode_phone phone = Inl e \<Longrightarrow> e = UnicodeEncodeError \<or> e = StructError"
  unfolding encode_phone_def Let_def
  by (auto simp: rbind_Inl dest: utf8_encode_Inl make_ndef_record_Inl wrap_tlv_Inl)

lemma join_set: "set (join sep xs) \<subseteq> set sep \<union> \<Union> (set ` set xs)"
  by (induction sep xs rule: join.induct) auto

lemma join_length: "length (join sep xs) \<le> sum_list (map length xs) + length sep * length xs"
  by (induction sep xs rule: join.induct) auto

lemma encode_email_total:
  assumes "\<forall>c \<in> set email. valid_cp c" "\<forall>c \<in> set subject. valid_cp c"
    "\<forall>c \<in> set body. valid_cp c" "length email + length subject + length body \<le> 16000"
  shows "\<exists>bs. encode_email email subject body = Inr bs"
proof -
  define params where "params = (if subject \<noteq> [] then [lit ''subject='' @ subject] else [])
                   @ (if body \<noteq> [] then [lit ''body='' @ body] else [])"
  define mailto where "mailto = (if params \<noteq> []
      then strip email @ lit ''?'' @ join (lit ''&'') params else strip email)"
  have ps: "\<Union> (set ` set params) \<subseteq> set (lit ''subject='') \<union> set subject
              \<union> set (lit ''body='') \<union> set body"
    by (auto simp: params_def)
  have pl: "sum_list (map length params) \<le> 13 + length subject + length body"
    "length params \<le> 2"
    by (auto simp: params_def length_lit)
  have "set mailto \<subseteq> set email \<union> set (lit ''?'') \<union> set (lit ''&'')
          \<union> set (lit ''subject='') \<union> set subject \<union> set (lit ''body='') \<union> set body"
    using strip_set[of email] join_set[of "lit ''&''" params] ps
    by (auto simp: mailto_def)
  then have v: "\<forall>c \<in> set mailto. valid_cp c"
    using assms(1-3) lit_valid by blast
  have "length (join (lit ''&'') params) \<le> 15 + length subject + length body"
    using join_length[of "lit ''&''" params] pl by (simp add: length_lit)
  then have l: "length mailto \<le> 16 + length email + length subject + length body"
    using strip_length[of email] by (simp add: mailto_def length_lit)
  from utf8_encode_bounded[OF v] obtain u where u: "utf8_encode mailto = Inr u"
    and lu: "length u \<le> 4 * length mailto" by blast
  have "\<exists>bs. rbind (make_ndef_record 1 (blit ''U'') (0x06 # u) True True) wrap_tlv = Inr bs"
    by (rule record_wrap_total) (use lu l assms(4) in \<open>simp_all add: length_blit\<close>)
  then show ?thesis
    unfolding encode_email_def Let_def params_def[symmetric] mailto_def[symmetric]
    by (simp add: u rbind_def)
qed

lemma encode_email_error:
  "encode_email email subject body = Inl e \<Longrightarrow> e = UnicodeEncodeError \<or> e = StructError"
  unfolding encode_email_def Let_def
  by (auto simp: rbind_Inl dest: utf8_encode_Inl make_ndef_record_Inl wrap_tlv_Inl)


lemma format1_set: "set (format1 t a) \<subseteq> set t \<union> set a"
  by (induction t a rule: format1.induct) (auto dest: in_set_dropD)

lemma format1_length: "length (format1 t a) \<le> length t + length a"
  by (induction t a rule: format1.induct) auto

lemma social_table:
  "\<forall>x \<in> set SOCIAL_PLATFORMS. length (snd x) \<le> 40 \<and> (\<forall>c \<in> set (snd x). c < 128)"
  by code_simp

lemma social_templates:
  assumes "map_of SOCIAL_PLATFORMS k = Some t"
  shows "\<forall>c \<in> set t. valid_cp c" "length t \<le> 40"
proof -
  from assms have "(k, t) \<in> set SOCIAL_PLATFORMS" by (rule map_of_SomeD)
  with social_table have "length t \<le> 40 \<and> (\<forall>c \<in> set t. c < 128)" by fastforce
  then show "\<forall>c \<in> set t. valid_cp c" "length t \<le> 40"
    by (auto simp: valid_cp_def)
qed

lemma encode_social_total:
  assumes "map_of SOCIAL_PLATFORMS (lower (strip platform)) \<noteq> None"
    "\<forall>c \<in> set username. valid_cp c" "length username \<le> 15000"
  shows "\<exists>bs. encode_social platform username = Inr bs"
proof -
  from assms(1) obtain t where t: "map_of SOCIAL_PLATFORMS (lower (strip platform)) = Some t"
    by auto
  define u where "u = dropWhile (\<lambda>c. c = 0x40) (strip username)"
  have "set u \<subseteq> set username" "length u \<le> length username"
    using strip_set[of username] strip_length[of username]
      set_dropWhileD[of _ "\<lambda>c. c = 0x40" "strip username"]
      length_dropWhile_le[of "\<lambda>c. c = 0x40" "strip username"]
    by (auto simp: u_def)
  then have "\<forall>c \<in> set (format1 t u). valid_cp c" "length (format1 t u) \<le> 16000"
    using format1_set[of t u] format1_length[of t u] social_templates[OF t] assms(2,3)
    by (auto simp: subset_iff)
  then have "\<exists>bs. encode_url (format1 t u) = Inr bs" by (rule encode_url_total)
  then show ?thesis
    unfolding encode_social_def Let_def u_def[symmetric] by (simp add: t)
qed

lemma encode_social_error:
  "encode_social platform username = Inl e \<Longrightarrow>
     (e = ValueError \<and> map_of SOCIAL_PLATFORMS (lower (strip platform)) = None)
     \<or> ((e = UnicodeEncodeError \<or> e = StructError)
         \<and> map_of SOCIAL_PLATFORMS (lower (strip platform)) \<noteq> None)"
  unfolding encode_social_def Let_def
  by (auto split: option.splits dest: encode_url_error)

lemma encode_social_ValueError:
  "encode_social platform username = Inl ValueError \<longleftrightarrow>
     map_of SOCIAL_PLATFORMS (lower (strip platform)) = None"
proof
  assume "encode_social platform username = Inl ValueError"
  from encode_social_error[OF this]
  show "map_of SOCIAL_PLATFORMS (lower (strip platform)) = None" by auto
next
  assume "map_of SOCIAL_PLATFORMS (lower (strip platform)) = None"
  then show "encode_social platform username = Inl ValueError"
    by (simp add: encode_social_def Let_def)
qed


lemma strip_prefix: "\<exists>zs. dropWhile isspace s = strip s @ zs"
proof -
  define a where "a = dropWhile isspace s"
  define tw where "tw = takeWhile isspace (rev a)"
  define dw where "dw = dropWhile isspace (rev a)"
  have "rev a = tw @ dw" unfolding tw_def dw_def by simp
  then have "rev (rev a) = rev (tw @ dw)" by (rule arg_cong)
  then have "a = rev dw @ rev tw" by simp
  then show ?thesis unfolding a_def strip_def dw_def by blast
qed

lemma strip_hd:
  assumes "strip s \<noteq> []"
  shows "\<not> isspace (hd (strip s))"
proof -
  obtain zs where z: "dropWhile isspace s = strip s @ zs" using strip_prefix by blast
  then have "dropWhile isspace s \<noteq> []" using assms by simp
  then have "\<not> isspace (hd (dropWhile isspace s))" by (rule hd_dropWhile)
  then show ?thesis unfolding z using assms by simp
qed

lemma split_max1_parts:
  assumes "s \<noteq> []" "\<not> isspace (hd s)"
  shows "\<exists>tok rest. (split_max1 s = [tok] \<or> (split_max1 s = [tok, rest] \<and> rest \<noteq> []))
           \<and> set tok \<subseteq> set s \<and> set rest \<subseteq> set s
           \<and> length tok + length rest \<le> length s"
proof -
  have d: "dropWhile isspace s = s" using assms by (cases s) simp_all
  define tok where "tok = takeWhile (\<lambda>c. \<not> isspace c) s"
  define mid where "mid = dropWhile (\<lambda>c. \<not> isspace c) s"
  define rest where "rest = dropWhile isspace mid"
  have s: "s = tok @ mid" by (simp add: tok_def mid_def)
  have "set rest \<subseteq> set mid" "length rest \<le> length mid"
    using set_dropWhileD[of _ isspace mid] length_dropWhile_le[of isspace mid]
    by (auto simp: rest_def)
  then have b: "set tok \<subseteq> set s" "set rest \<subseteq> set s" "length tok + length rest \<le> length s"
    by (auto simp: s)
  have sp: "split_max1 s = (if rest = [] then [tok] else [tok, rest])"
    unfolding split_max1_def Let_def d tok_def rest_def mid_def using assms(1) by simp
  have "(split_max1 s = [tok] \<or> (split_max1 s = [tok, rest] \<and> rest \<noteq> []))"
    unfolding sp by simp
  then show ?thesis using b by blast
qed

lemma opt_line:
  "length (if c then [x] else []) \<le> 1"
  "sum_list (map length (if c then [x] else [])) \<le> length x"
  "\<forall>l \<in> set (if c then [x] else []). l = x"
  by (cases c; simp)+

lemma vcard_lines_total:
  assumes "strip name \<noteq> []"
  shows "\<exists>lines. vcard_lines name phone email org title url address vnote = Inr lines
     \<and> length lines \<le> 12
     \<and> sum_list (map length lines) \<le> 100 + 2 * length name + length phone + length email
           + length org + length title + length url + length address + length vnote
     \<and> \<Union> (set ` set lines) \<subseteq> {c. c < 256} \<union> set name \<union> set phone \<union> set email
           \<union> set org \<union> set title \<union> set url \<union> set address \<union> set vnote"
proof -
  from split_max1_parts[OF assms strip_hd[OF assms]] obtain tok rest where
    p: "split_max1 (strip name) = [tok] \<or> (split_max1 (strip name) = [tok, rest] \<and> rest \<noteq> [])"
    and ts: "set tok \<subseteq> set (strip name)" and rs: "set rest \<subseteq> set (strip name)"
    and tl: "length tok + length rest \<le> length (strip name)"
    by blast
  define n_line where "n_line =
    (if split_max1 (strip name) = [tok] then lit ''N:'' @ tok @ lit '';;;;''
     else lit ''N:'' @ rest @ lit '';'' @ tok @ lit '';;;'')"
  have nl: "(if length (split_max1 (strip name)) = 2
                then Inr (lit ''N:'' @ split_max1 (strip name) ! 1 @ lit '';''
                          @ split_max1 (strip name) ! 0 @ lit '';;;'')
                else (case split_max1 (strip name) of
                        [] \<Rightarrow> Inl IndexError
                      | p0 # _ \<Rightarrow> Inr (lit ''N:'' @ p0 @ lit '';;;;''))) = Inr n_line"
    using p by (auto simp: n_line_def)
  have nlen: "length n_line \<le> 7 + length name"
    using tl strip_length[of name] by (simp add: n_line_def length_lit)
  have nset: "set n_line \<subseteq> {c. c < 256} \<union> set name"
    using ts rs strip_set[of name] lit_small by (auto simp: n_line_def)
  define x1 where "x1 = lit ''TEL;TYPE=CELL:'' @ strip phone"
  define x2 where "x2 = lit ''EMAIL:'' @ strip email"
  define x3 where "x3 = lit ''ORG:'' @ strip org"
  define x4 where "x4 = lit ''TITLE:'' @ strip title"
  define x5 where "x5 = lit ''URL:'' @ strip url"
  define x6 where "x6 = lit ''ADR;TYPE=HOME:;;'' @ strip address @ lit '';;;;''"
  define x7 where "x7 = lit ''NOTE:'' @ strip vnote"
  define x0 where "x0 = lit ''FN:'' @ strip name"
  define o1 where "o1 = (if phone \<noteq> [] then [x1] else [])"
  define o2 where "o2 = (if email \<noteq> [] then [x2] else [])"
  define o3 where "o3 = (if org \<noteq> [] then [x3] else [])"
  define o4 where "o4 = (if title \<noteq> [] then [x4] else [])"
  define o5 where "o5 = (if url \<noteq> [] then [x5] else [])"
  define o6 where "o6 = (if address \<noteq> [] then [x6] else [])"
  define o7 where "o7 = (if vnote \<noteq> [] then [x7] else [])"
  note od = o1_def o2_def o3_def o4_def o5_def o6_def o7_def
  define lines where "lines = [lit ''BEGIN:VCARD'', lit ''VERSION:3.0'', x0]
           @ [n_line] @ o1 @ o2 @ o3 @ o4 @ o5 @ o6 @ o7 @ [lit ''END:VCARD'']"
  have v: "vcard_lines name phone email org title url address vnote = Inr lines"
    unfolding vcard_lines_def Let_def nl lines_def od x0_def x1_def x2_def x3_def x4_def
      x5_def x6_def x7_def
    by (simp only: rbind_def sum.case)
  have xl: "length x0 \<le> 3 + length name" "length x1 \<le> 14 + length phone"
    "length x2 \<le> 6 + length email" "length x3 \<le> 4 + length org"
    "length x4 \<le> 6 + length title" "length x5 \<le> 4 + length url"
    "length x6 \<le> 20 + length address" "length x7 \<le> 5 + length vnote"
    using strip_length[of name] strip_length[of phone] strip_length[of email]
      strip_length[of org] strip_length[of title] strip_length[of url]
      strip_length[of address] strip_length[of vnote]
    by (simp_all add: x0_def x1_def x2_def x3_def x4_def x5_def x6_def x7_def length_lit)
  have xs: "set x0 \<subseteq> {c. c < 256} \<union> set name" "set x1 \<subseteq> {c. c < 256} \<union> set phone"
    "set x2 \<subseteq> {c. c < 256} \<union> set email" "set x3 \<subseteq> {c. c < 256} \<union> set org"
    "set x4 \<subseteq> {c. c < 256} \<union> set title" "set x5 \<subseteq> {c. c < 256} \<union> set url"
    "set x6 \<subseteq> {c. c < 256} \<union> set address" "set x7 \<subseteq> {c. c < 256} \<union> set vnote"
    using strip_set[of name] strip_set[of phone] strip_set[of email]
      strip_set[of org] strip_set[of title] strip_set[of url]
      strip_set[of address] strip_set[of vnote] lit_small
    by (auto simp: x0_def x1_def x2_def x3_def x4_def x5_def x6_def x7_def)
  have ol: "length o1 \<le> 1" "length o2 \<le> 1" "length o3 \<le> 1" "length o4 \<le> 1"
    "length o5 \<le> 1" "length o6 \<le> 1" "length o7 \<le> 1"
    unfolding od by (rule opt_line(1))+
  have os: "sum_list (map length o1) \<le> length x1" "sum_list (map length o2) \<le> length x2"
    "sum_list (map length o3) \<le> length x3" "sum_list (map length o4) \<le> length x4"
    "sum_list (map length o5) \<le> length x5" "sum_list (map length o6) \<le> length x6"
    "sum_list (map length o7) \<le> length x7"
    unfolding od by (rule opt_line(2))+
  have ou: "\<forall>l \<in> set o1. l = x1" "\<forall>l \<in> set o2. l = x2" "\<forall>l \<in> set o3. l = x3"
    "\<forall>l \<in> set o4. l = x4" "\<forall>l \<in> set o5. l = x5" "\<forall>l \<in> set o6. l = x6"
    "\<forall>l \<in> set o7. l = x7"
    unfolding od by (rule opt_line(3))+
  have l1: "length lines \<le> 12" using ol by (simp add: lines_def)
  have l2: "sum_list (map length lines) \<le> 100 + 2 * length name + length phone + length email
           + length org + length title + length url + length address + length vnote"
    using nlen xl os by (simp add: lines_def length_lit)
  have "set l \<subseteq> {c. c < 256} \<union> set name \<union> set phone \<union> set email
           \<union> set org \<union> set title \<union> set url \<union> set address \<union> set vnote"
    if "l \<in> set lines" for l
  proof -
    from that consider "l = lit ''BEGIN:VCARD''" | "l = lit ''VERSION:3.0''" | "l = x0"
      | "l = n_line" | "l = x1" | "l = x2" | "l = x3" | "l = x4" | "l = x5" | "l = x6"
      | "l = x7" | "l = lit ''END:VCARD''"
      using ou unfolding lines_def by auto
    then show ?thesis
      using nset xs lit_small[of _ "''BEGIN:VCARD''"] lit_small[of _ "''VERSION:3.0''"]
        lit_small[of _ "''END:VCARD''"]
      by cases auto
  qed
  then have l3: "\<Union> (set ` set lines) \<subseteq> {c. c < 256} \<union> set name \<union> set phone \<union> set email
           \<union> set org \<union> set title \<union> set url \<union> set address \<union> set vnote"
    by blast
  show ?thesis using v l1 l2 l3 by (intro exI[of _ lines] conjI)
qed


lemma vcard_lines_Inl:
  "vcard_lines name phone email org title url address vnote = Inl e \<Longrightarrow>
     e = IndexError \<and> strip name = []"
proof -
  assume a: "vcard_lines name phone email org title url address vnote = Inl e"
  then have "strip name = []" using vcard_lines_total[of name] by (metis Inl_Inr_False)
  moreover from a have "e = IndexError"
    unfolding vcard_lines_def Let_def
    by (auto simp: rbind_Inl split: if_splits list.splits)
  ultimately show ?thesis by simp
qed

lemma encode_vcard_total:
  assumes "strip name \<noteq> []"
    "\<forall>c \<in> set name \<union> set phone \<union> set email \<union> set org \<union> set title \<union> set url
        \<union> set address \<union> set vnote. valid_cp c"
    "2 * length name + length phone + length email + length org + length title + length url
       + length address + length vnote \<le> 15000"
  shows "\<exists>bs. encode_vcard name phone email org title url address vnote = Inr bs"
proof -
  from vcard_lines_total[OF assms(1), of phone email org title url address vnote]
  obtain lines where v: "vcard_lines name phone email org title url address vnote = Inr lines"
    and l1: "length lines \<le> 12"
    and l2: "sum_list (map length lines) \<le> 100 + 2 * length name + length phone + length email
           + length org + length title + length url + length address + length vnote"
    and l3: "\<Union> (set ` set lines) \<subseteq> {c. c < 256} \<union> set name \<union> set phone \<union> set email
           \<union> set org \<union> set title \<union> set url \<union> set address \<union> set vnote"
    by blast
  define vs where "vs = join [0x0D, 0x0A] lines"
  have j: "set vs \<subseteq> set [0x0D, 0x0A] \<union> \<Union> (set ` set lines)"
    unfolding vs_def by (rule join_set)
  have c: "set [0x0D, 0x0A :: nat] \<subseteq> {c. c < 256}" by simp
  from j c l3 have "set vs \<subseteq> {c. c < 256} \<union> set name \<union> set phone \<union> set email
           \<union> set org \<union> set title \<union> set url \<union> set address \<union> set vnote"
    by blast
  then have val: "\<forall>c \<in> set vs. valid_cp c"
    using assms(2) valid_cp_small by (auto simp: subset_iff)
  have "length vs \<le> sum_list (map length lines) + 2 * length lines"
    using join_length[of "[0x0D, 0x0A]" lines] unfolding vs_def by simp
  then have len: "length vs \<le> 15124" using l1 l2 assms(3) by linarith
  from utf8_encode_bounded[OF val] obtain u where u: "utf8_encode vs = Inr u"
    and lu: "length u \<le> 4 * length vs" by blast
  have "\<exists>bs. rbind (make_ndef_record 2 (blit ''text/vcard'') u True True) wrap_tlv = Inr bs"
    by (rule record_wrap_total) (use lu len in \<open>simp_all add: length_blit\<close>)
  then show ?thesis
    unfolding encode_vcard_def Let_def v by (simp add: u[unfolded vs_def] rbind_def)
qed

lemma encode_vcard_error:
  "encode_vcard name phone email org title url address vnote = Inl e \<Longrightarrow>
     (e = IndexError \<and> strip name = []) \<or> e = UnicodeEncodeError \<or> e = StructError"
  unfolding encode_vcard_def Let_def
  by (auto simp: rbind_Inl dest: vcard_lines_Inl utf8_encode_Inl make_ndef_record_Inl wrap_tlv_Inl)

section \<open>The WiFi credential\<close>

text \<open>
  The attribute encoding of WiFi Simple Configuration, written from the words of the
  specification: two bytes of identifier, two bytes of length, the value.
\<close>

definition be2 :: "nat \<Rightarrow> bytes" where
  "be2 n = [of_nat (n div 256), of_nat (n mod 256)]"

definition wsc_attr :: "nat \<Rightarrow> bytes \<Rightarrow> bytes" where
  "wsc_attr ident v = be2 ident @ be2 (length v) @ v"

definition wsc_auth :: "str \<Rightarrow> nat" where
  "wsc_auth a = (if upper a = lit ''OPEN'' then 0x0001
                 else if upper a = lit ''WPA'' then 0x0002 else 0x0020)"

definition wsc_enc :: "str \<Rightarrow> nat" where
  "wsc_enc a = (if upper a = lit ''OPEN'' then 0x0001 else 0x0004)"

definition wsc_credential :: "bytes \<Rightarrow> bytes \<Rightarrow> str \<Rightarrow> bytes" where
  "wsc_credential ssid_bytes pw_bytes auth_type =
     wsc_attr 0x1026 [0x01] @ wsc_attr 0x1045 ssid_bytes
     @ wsc_attr 0x1003 (be2 (wsc_auth auth_type)) @ wsc_attr 0x100F (be2 (wsc_enc auth_type))
     @ (if pw_bytes = [] then [] else wsc_attr 0x1027 pw_bytes)
     @ wsc_attr 0x1020 (replicate 6 0xFF)"

text \<open>
  The credential as claim C6 words it: the network key always present, and every
  authentication string but OPEN mapped to \<open>0x0020\<close>.
\<close>

definition claimed_credential :: "bytes \<Rightarrow> bytes \<Rightarrow> str \<Rightarrow> bytes" where
  "claimed_credential ssid_bytes pw_bytes auth_type =
     wsc_attr 0x1026 [0x01] @ wsc_attr 0x1045 ssid_bytes
     @ wsc_attr 0x1003 (be2 (if auth_type = lit ''OPEN'' then 0x0001 else 0x0020))
     @ wsc_attr 0x100F (be2 (if auth_type = lit ''OPEN'' then 0x0001 else 0x0004))
     @ wsc_attr 0x1027 pw_bytes
     @ wsc_attr 0x1020 (replicate 6 0xFF)"

lemma pack_H_nat: "n \<le> 65535 \<Longrightarrow> pack1 (H (int n)) = Inr (be2 n)"
proof -
  assume n: "n \<le> 65535"
  have d: "int n div 256 = int (n div 256)" "int n mod 256 = int (n mod 256)"
    by (simp_all add: zdiv_int zmod_int)
  show ?thesis using n unfolding pack1.simps d by (simp add: be2_def)
qed

lemma struct_pack_id_len:
  assumes "n \<le> 65535"
  shows "struct_pack [H 0x1045, H (int n)] = Inr (be2 0x1045 @ be2 n)"
    "struct_pack [H 0x1027, H (int n)] = Inr (be2 0x1027 @ be2 n)"
    "struct_pack [H 0x100E, H (int n)] = Inr (be2 0x100E @ be2 n)"
  using pack_H_nat[OF assms] by (simp_all add: be2_def)

lemma wsc_small: "wsc_auth a \<le> 65535" "wsc_enc a \<le> 65535"
  by (simp_all add: wsc_auth_def wsc_enc_def)

lemma pack_auth:
  "struct_pack [H 0x1003, H 2, H (case map_of auth_map (upper a) of None \<Rightarrow> 0x0020 | Some v \<Rightarrow> v)]
     = Inr (wsc_attr 0x1003 (be2 (wsc_auth a)))"
  by (simp add: auth_map_def wsc_auth_def lit_def be2_def wsc_attr_def)

lemma pack_enc:
  "struct_pack [H 0x100F, H 2, H (if upper a \<noteq> lit ''OPEN'' then 0x0004 else 0x0001)]
     = Inr (wsc_attr 0x100F (be2 (wsc_enc a)))"
  by (simp add: wsc_enc_def be2_def wsc_attr_def)

lemma wifi_credential_eq:
  assumes "utf8_encode ssid = Inr s" "utf8_encode password = Inr p"
    "length s \<le> 65535" "length p \<le> 65535"
  shows "wifi_credential ssid password auth_type = Inr (wsc_credential s p auth_type)"
proof -
  have pe: "p = [] \<longleftrightarrow> password = []"
    using assms(2) utf8_roundtrip_whole[OF assms(2)] by (cases password) auto
  have a1: "struct_pack [H 0x1026, H 1] = Inr (be2 0x1026 @ be2 1)"
    by (simp add: be2_def)
  have a6: "struct_pack [H 0x1020, H 6] = Inr (be2 0x1020 @ be2 6)"
    by (simp add: be2_def)
  show ?thesis
    unfolding wifi_credential_def Let_def pack_auth pack_enc a1 a6
    by (simp add: rbind_def assms(1,2) pe struct_pack_id_len(1)[OF assms(3)]
          struct_pack_id_len(2)[OF assms(4)] wsc_credential_def wsc_attr_def
          del: struct_pack.simps pack1.simps)
qed


lemma struct_pack_len_Inr:
  "struct_pack [H k, H (int n)] = Inr x \<Longrightarrow> n \<le> 65535"
  by (simp split: if_splits sum.splits)

lemma wifi_credential_Inr:
  assumes "wifi_credential ssid password auth_type = Inr cred"
  shows "\<exists>s p. utf8_encode ssid = Inr s \<and> utf8_encode password = Inr p
           \<and> length s \<le> 65535 \<and> length p \<le> 65535"
proof -
  from assms obtain s a2 key where s: "utf8_encode ssid = Inr s"
    and a2: "struct_pack [H 0x1045, H (int (length s))] = Inr a2"
    and key: "(if password \<noteq> []
            then rbind (utf8_encode password) (\<lambda>pw_bytes.
                 rbind (struct_pack [H 0x1027, H (int (length pw_bytes))]) (\<lambda>a5.
                 Inr (a5 @ pw_bytes)))
            else Inr []) = Inr key"
    unfolding wifi_credential_def Let_def rbind_Inr by blast
  have ls: "length s \<le> 65535" using a2 by (rule struct_pack_len_Inr)
  have "\<exists>p. utf8_encode password = Inr p \<and> length p \<le> 65535"
  proof (cases "password = []")
    case True
    then show ?thesis by simp
  next
    case False
    with key have "rbind (utf8_encode password) (\<lambda>pw_bytes.
                 rbind (struct_pack [H 0x1027, H (int (length pw_bytes))]) (\<lambda>a5.
                 Inr (a5 @ pw_bytes))) = Inr key"
      by (simp del: struct_pack.simps pack1.simps)
    then obtain p a5 where "utf8_encode password = Inr p"
      "struct_pack [H 0x1027, H (int (length p))] = Inr a5"
      unfolding rbind_Inr by blast
    then show ?thesis using struct_pack_len_Inr by blast
  qed
  then show ?thesis using s ls by blast
qed

lemma encode_wifi_total:
  assumes "(\<forall>c \<in> set ssid \<union> set password. valid_cp c) \<and> length ssid + length password \<le> 15000"
  shows "\<exists>bs. encode_wifi ssid password auth_type hidden = Inr bs"
proof -
  from assms have vs: "\<forall>c \<in> set ssid. valid_cp c" and vp: "\<forall>c \<in> set password. valid_cp c"
    by auto
  from utf8_encode_bounded[OF vs] obtain s where s: "utf8_encode ssid = Inr s"
    and ls: "length s \<le> 4 * length ssid" by blast
  from utf8_encode_bounded[OF vp] obtain p where p: "utf8_encode password = Inr p"
    and lp: "length p \<le> 4 * length password" by blast
  have l: "length s + length p \<le> 60000" using ls lp assms by linarith
  then have c: "wifi_credential ssid password auth_type = Inr (wsc_credential s p auth_type)"
    using wifi_credential_eq[OF s p] by simp
  have lc: "length (wsc_credential s p auth_type) \<le> 35 + length s + length p"
    by (simp add: wsc_credential_def wsc_attr_def be2_def)
  then have l0: "length (wsc_credential s p auth_type) \<le> 65535" using l by linarith
  have "\<exists>bs. rbind (make_ndef_record 0x02 (blit ''application/vnd.wfa.wsc'')
           (wsc_attr 0x100E (wsc_credential s p auth_type)) True True) wrap_tlv = Inr bs"
    by (rule record_wrap_total) (use lc l in \<open>simp_all add: length_blit wsc_attr_def be2_def\<close>)
  then show "\<exists>bs. encode_wifi ssid password auth_type hidden = Inr bs"
    unfolding encode_wifi_def Let_def c
    by (simp add: rbind_def struct_pack_id_len(3)[OF l0] wsc_attr_def
          del: struct_pack.simps pack1.simps)
qed

text \<open>
  Claim C6, as amended. Whenever \<open>encode_wifi\<close> returns an image, the image is the TLV
  wrapping of a MIME record (TNF 2) of type \<^verbatim>\<open>application/vnd.wfa.wsc\<close> whose payload is
  one Credential attribute (\<open>0x100E\<close>) holding, each as two bytes of identifier, two bytes
  of length and the value: network index, SSID, authentication type, encryption type, the
  network key when the password is not empty, and the broadcast MAC address. The
  authentication value is \<open>0x0001\<close> for OPEN, \<open>0x0002\<close> for WPA and \<open>0x0020\<close> for
  anything else, the encryption value \<open>0x0001\<close> for OPEN and \<open>0x0004\<close> otherwise
  (the string compared in upper case). The image exists for every SSID and password of
  encodable code points and at most 15000 code points together.
\<close>

theorem encode_wifi_structure:
  "(encode_wifi ssid password auth_type hidden = Inr bs \<longrightarrow>
      (\<exists>s p rcd. utf8_encode ssid = Inr s \<and> utf8_encode password = Inr p \<and>
         make_ndef_record 0x02 (blit ''application/vnd.wfa.wsc'')
           (wsc_attr 0x100E (wsc_credential s p auth_type)) True True = Inr rcd \<and>
         wrap_tlv rcd = Inr bs)) \<and>
   ((\<forall>c \<in> set ssid \<union> set password. valid_cp c) \<and> length ssid + length password \<le> 15000 \<longrightarrow>
      (\<exists>bs. encode_wifi ssid password auth_type hidden = Inr bs))"
proof (intro conjI impI)
  assume e: "encode_wifi ssid password auth_type hidden = Inr bs"
  then obtain cred a0 rcd where c: "wifi_credential ssid password auth_type = Inr cred"
    and a0: "struct_pack [H 0x100E, H (int (length cred))] = Inr a0"
    and r: "make_ndef_record 0x02 (blit ''application/vnd.wfa.wsc'') (a0 @ cred) True True
              = Inr rcd"
    and w: "wrap_tlv rcd = Inr bs"
    unfolding encode_wifi_def Let_def rbind_Inr by blast
  from wifi_credential_Inr[OF c] obtain s p where s: "utf8_encode ssid = Inr s"
    and p: "utf8_encode password = Inr p" and l: "length s \<le> 65535" "length p \<le> 65535"
    by blast
  have cred: "cred = wsc_credential s p auth_type"
    using wifi_credential_eq[OF s p l, of auth_type] c by simp
  have "length cred \<le> 65535" using a0 by (rule struct_pack_len_Inr)
  from struct_pack_id_len(3)[OF this] a0 have "a0 @ cred = wsc_attr 0x100E cred"
    by (simp add: wsc_attr_def)
  with r w s p show "\<exists>s p rcd. utf8_encode ssid = Inr s \<and> utf8_encode password = Inr p \<and>
         make_ndef_record 0x02 (blit ''application/vnd.wfa.wsc'')
           (wsc_attr 0x100E (wsc_credential s p auth_type)) True True = Inr rcd \<and>
         wrap_tlv rcd = Inr bs"
    unfolding cred by auto
next
  assume "(\<forall>c \<in> set ssid \<union> set password. valid_cp c) \<and> length ssid + length password \<le> 15000"
  then show "\<exists>bs. encode_wifi ssid password auth_type hidden = Inr bs"
    by (rule encode_wifi_total)
qed


theorem encode_wifi_structure_witness:
  "encode_wifi (lit ''HomeNet'') (lit ''secret123'') (lit ''WPA2'') False =
     Inr ([0x03, 81, 0xD2, 23, 55] @ blit ''application/vnd.wfa.wsc'' @ [0x10, 0x0E, 0x00, 51]
          @ wsc_credential (blit ''HomeNet'') (blit ''secret123'') (lit ''WPA2'') @ [0xFE]) \<and>
   (\<exists>s p rcd. utf8_encode (lit ''HomeNet'') = Inr s \<and> utf8_encode (lit ''secret123'') = Inr p \<and>
      make_ndef_record 0x02 (blit ''application/vnd.wfa.wsc'')
        (wsc_attr 0x100E (wsc_credential s p (lit ''WPA2''))) True True = Inr rcd \<and>
      wrap_tlv rcd = Inr ([0x03, 81, 0xD2, 23, 55] @ blit ''application/vnd.wfa.wsc''
          @ [0x10, 0x0E, 0x00, 51]
          @ wsc_credential (blit ''HomeNet'') (blit ''secret123'') (lit ''WPA2'') @ [0xFE])) \<and>
   wsc_credential (blit ''HomeNet'') (blit ''secret123'') (lit ''WPA2'') =
     [0x10, 0x26, 0x00, 0x01, 0x01] @ [0x10, 0x45, 0x00, 0x07] @ blit ''HomeNet''
     @ [0x10, 0x03, 0x00, 0x02, 0x00, 0x20] @ [0x10, 0x0F, 0x00, 0x02, 0x00, 0x04]
     @ [0x10, 0x27, 0x00, 0x09] @ blit ''secret123''
     @ [0x10, 0x20, 0x00, 0x06, 0xFF, 0xFF, 0xFF, 0xFF, 0xFF, 0xFF]"
proof -
  have e: "encode_wifi (lit ''HomeNet'') (lit ''secret123'') (lit ''WPA2'') False =
     Inr ([0x03, 81, 0xD2, 23, 55] @ blit ''application/vnd.wfa.wsc'' @ [0x10, 0x0E, 0x00, 51]
          @ wsc_credential (blit ''HomeNet'') (blit ''secret123'') (lit ''WPA2'') @ [0xFE])"
    by code_simp
  have c: "wsc_credential (blit ''HomeNet'') (blit ''secret123'') (lit ''WPA2'') =
     [0x10, 0x26, 0x00, 0x01, 0x01] @ [0x10, 0x45, 0x00, 0x07] @ blit ''HomeNet''
     @ [0x10, 0x03, 0x00, 0x02, 0x00, 0x20] @ [0x10, 0x0F, 0x00, 0x02, 0x00, 0x04]
     @ [0x10, 0x27, 0x00, 0x09] @ blit ''secret123''
     @ [0x10, 0x20, 0x00, 0x06, 0xFF, 0xFF, 0xFF, 0xFF, 0xFF, 0xFF]"
    by code_simp
  from encode_wifi_structure[where ssid = "lit ''HomeNet''" and password = "lit ''secret123''"
      and auth_type = "lit ''WPA2''" and hidden = False
      and bs = "[0x03, 81, 0xD2, 23, 55] @ blit ''application/vnd.wfa.wsc'' @ [0x10, 0x0E, 0x00, 51]
          @ wsc_credential (blit ''HomeNet'') (blit ''secret123'') (lit ''WPA2'') @ [0xFE]"]
  have "encode_wifi (lit ''HomeNet'') (lit ''secret123'') (lit ''WPA2'') False =
     Inr ([0x03, 81, 0xD2, 23, 55] @ blit ''application/vnd.wfa.wsc'' @ [0x10, 0x0E, 0x00, 51]
          @ wsc_credential (blit ''HomeNet'') (blit ''secret123'') (lit ''WPA2'') @ [0xFE]) \<longrightarrow>
   (\<exists>s p rcd. utf8_encode (lit ''HomeNet'') = Inr s \<and> utf8_encode (lit ''secret123'') = Inr p \<and>
      make_ndef_record 0x02 (blit ''application/vnd.wfa.wsc'')
        (wsc_attr 0x100E (wsc_credential s p (lit ''WPA2''))) True True = Inr rcd \<and>
      wrap_tlv rcd = Inr ([0x03, 81, 0xD2, 23, 55] @ blit ''application/vnd.wfa.wsc''
          @ [0x10, 0x0E, 0x00, 51]
          @ wsc_credential (blit ''HomeNet'') (blit ''secret123'') (lit ''WPA2'') @ [0xFE]))"
    by (rule conjunct1)
  with e c show ?thesis by (intro conjI) (rule e, erule mp, rule e, rule c)
qed

theorem encode_wifi_claim_counterexample:
  "wifi_credential (lit ''HomeNet'') (lit ''secret123'') (lit ''WPA'') =
     Inr ([0x10, 0x26, 0x00, 0x01, 0x01] @ [0x10, 0x45, 0x00, 0x07] @ blit ''HomeNet''
     @ [0x10, 0x03, 0x00, 0x02, 0x00, 0x02] @ [0x10, 0x0F, 0x00, 0x02, 0x00, 0x04]
     @ [0x10, 0x27, 0x00, 0x09] @ blit ''secret123''
     @ [0x10, 0x20, 0x00, 0x06, 0xFF, 0xFF, 0xFF, 0xFF, 0xFF, 0xFF]) \<and>
   wifi_credential (lit ''HomeNet'') (lit ''secret123'') (lit ''WPA'')
     \<noteq> Inr (claimed_credential (blit ''HomeNet'') (blit ''secret123'') (lit ''WPA'')) \<and>
   wifi_credential (lit ''HomeNet'') [] (lit ''WPA2'')
     \<noteq> Inr (claimed_credential (blit ''HomeNet'') [] (lit ''WPA2''))"
  by code_simp

lemma wifi_credential_error:
  "wifi_credential ssid password auth_type = Inl e \<Longrightarrow> e = UnicodeEncodeError \<or> e = StructError"
  unfolding wifi_credential_def Let_def
  by (auto simp: rbind_Inl simp del: struct_pack.simps pack1.simps split: if_splits
           dest: utf8_encode_Inl struct_pack_Inl)

lemma encode_wifi_error:
  "encode_wifi ssid password auth_type hidden = Inl e \<Longrightarrow>
     e = UnicodeEncodeError \<or> e = StructError"
  unfolding encode_wifi_def Let_def
  by (auto simp: rbind_Inl simp del: struct_pack.simps pack1.simps
           dest: wifi_credential_error struct_pack_Inl make_ndef_record_Inl wrap_tlv_Inl)

section \<open>The encoders' images\<close>

definition ndef_image :: "bytes \<Rightarrow> bool" where
  \<comment> \<open>an image is the TLV container of a record built by \<open>make_ndef_record\<close>\<close>
  "ndef_image bs \<longleftrightarrow>
     (\<exists>tnf ty payload record.
        make_ndef_record tnf ty payload True True = Inr record \<and> tlv_image bs record)"

text \<open>
  Claim C2. Each of the seven encoders returns a byte sequence on every input of encodable
  code points that is short enough (the conditions under which it returns are those of
  claim C5), and whatever byte sequence an encoder returns begins with \<open>0x03\<close>, ends with
  \<open>0xFE\<close> and encloses an NDEF record built by \<open>make_ndef_record\<close> whose byte length is
  the declared one: a single length byte for a record shorter than 255 bytes, \<open>0xFF\<close>
  and two big-endian bytes otherwise.
\<close>

theorem encoders_tlv_container:
  "((\<forall>c \<in> set url. valid_cp c) \<and> length url \<le> 15000 \<longrightarrow>
      (\<exists>bs. encode_url url = Inr bs)) \<and>
   (\<forall>bs. encode_url url = Inr bs \<longrightarrow> ndef_image bs) \<and>
   ((\<forall>c \<in> set msg. valid_cp c) \<and> (\<forall>c \<in> set lang. c < 128) \<and>
      length msg + length lang \<le> 15000 \<longrightarrow>
      (\<exists>bs. encode_text msg lang = Inr bs)) \<and>
   (\<forall>bs. encode_text msg lang = Inr bs \<longrightarrow> ndef_image bs) \<and>
   (strip name \<noteq> [] \<and>
      (\<forall>c \<in> set name \<union> set phone \<union> set email \<union> set org \<union> set title \<union> set vurl
          \<union> set address \<union> set vnote. valid_cp c) \<and>
      2 * length name + length phone + length email + length org + length title + length vurl
         + length address + length vnote \<le> 15000 \<longrightarrow>
      (\<exists>bs. encode_vcard name phone email org title vurl address vnote = Inr bs)) \<and>
   (\<forall>bs. encode_vcard name phone email org title vurl address vnote = Inr bs \<longrightarrow>
      ndef_image bs) \<and>
   ((\<forall>c \<in> set number. valid_cp c) \<and> length number \<le> 15000 \<longrightarrow>
      (\<exists>bs. encode_phone number = Inr bs)) \<and>
   (\<forall>bs. encode_phone number = Inr bs \<longrightarrow> ndef_image bs) \<and>
   ((\<forall>c \<in> set addr \<union> set subject \<union> set body. valid_cp c) \<and>
      length addr + length subject + length body \<le> 15000 \<longrightarrow>
      (\<exists>bs. encode_email addr subject body = Inr bs)) \<and>
   (\<forall>bs. encode_email addr subject body = Inr bs \<longrightarrow> ndef_image bs) \<and>
   (map_of SOCIAL_PLATFORMS (lower (strip platform)) \<noteq> None \<and>
      (\<forall>c \<in> set username. valid_cp c) \<and> length username \<le> 15000 \<longrightarrow>
      (\<exists>bs. encode_social platform username = Inr bs)) \<and>
   (\<forall>bs. encode_social platform username = Inr bs \<longrightarrow> ndef_image bs) \<and>
   ((\<forall>c \<in> set ssid \<union> set password. valid_cp c) \<and> length ssid + length password \<le> 15000 \<longrightarrow>
      (\<exists>bs. encode_wifi ssid password auth_type hidden = Inr bs)) \<and>
   (\<forall>bs. encode_wifi ssid password auth_type hidden = Inr bs \<longrightarrow> ndef_image bs)"
proof (intro conjI impI allI)
  assume "(\<forall>c \<in> set url. valid_cp c) \<and> length url \<le> 15000"
  then show "\<exists>bs. encode_url url = Inr bs" using encode_url_total[of url] by simp
next
  fix bs assume "encode_url url = Inr bs"
  then show "ndef_image bs" unfolding ndef_image_def by (rule encode_url_image)
next
  assume "(\<forall>c \<in> set msg. valid_cp c) \<and> (\<forall>c \<in> set lang. c < 128) \<and>
      length msg + length lang \<le> 15000"
  then show "\<exists>bs. encode_text msg lang = Inr bs" using encode_text_total[of msg lang] by simp
next
  fix bs assume "encode_text msg lang = Inr bs"
  then show "ndef_image bs" unfolding ndef_image_def by (rule encode_text_image)
next
  assume "strip name \<noteq> [] \<and>
      (\<forall>c \<in> set name \<union> set phone \<union> set email \<union> set org \<union> set title \<union> set vurl
          \<union> set address \<union> set vnote. valid_cp c) \<and>
      2 * length name + length phone + length email + length org + length title + length vurl
         + length address + length vnote \<le> 15000"
  then show "\<exists>bs. encode_vcard name phone email org title vurl address vnote = Inr bs"
    using encode_vcard_total[of name phone email org title vurl address vnote] by blast
next
  fix bs assume "encode_vcard name phone email org title vurl address vnote = Inr bs"
  then show "ndef_image bs" unfolding ndef_image_def by (rule encode_vcard_image)
next
  assume "(\<forall>c \<in> set number. valid_cp c) \<and> length number \<le> 15000"
  then show "\<exists>bs. encode_phone number = Inr bs" using encode_phone_total[of number] by simp
next
  fix bs assume "encode_phone number = Inr bs"
  then show "ndef_image bs" unfolding ndef_image_def by (rule encode_phone_image)
next
  assume "(\<forall>c \<in> set addr \<union> set subject \<union> set body. valid_cp c) \<and>
      length addr + length subject + length body \<le> 15000"
  then show "\<exists>bs. encode_email addr subject body = Inr bs"
    using encode_email_total[of addr subject body] by simp
next
  fix bs assume "encode_email addr subject body = Inr bs"
  then show "ndef_image bs" unfolding ndef_image_def by (rule encode_email_image)
next
  assume "map_of SOCIAL_PLATFORMS (lower (strip platform)) \<noteq> None \<and>
      (\<forall>c \<in> set username. valid_cp c) \<and> length username \<le> 15000"
  then show "\<exists>bs. encode_social platform username = Inr bs"
    using encode_social_total by blast
next
  fix bs assume "encode_social platform username = Inr bs"
  then show "ndef_image bs" unfolding ndef_image_def by (rule encode_social_image)
next
  assume "(\<forall>c \<in> set ssid \<union> set password. valid_cp c) \<and> length ssid + length password \<le> 15000"
  then show "\<exists>bs. encode_wifi ssid password auth_type hidden = Inr bs"
    by (rule encode_wifi_total)
next
  fix bs assume "encode_wifi ssid password auth_type hidden = Inr bs"
  then show "ndef_image bs" unfolding ndef_image_def by (rule encode_wifi_image)
qed


theorem encoders_tlv_container_witness:
  "(\<exists>bs. encode_url (lit ''https://example.com/path'') = Inr bs \<and> ndef_image bs) \<and>
   (\<exists>bs. encode_text (lit ''hello'') (lit ''en'') = Inr bs \<and> ndef_image bs) \<and>
   (\<exists>bs. encode_vcard (lit ''John Smith'') (lit ''123'') [] [] [] [] [] [] = Inr bs
      \<and> ndef_image bs) \<and>
   (\<exists>bs. encode_phone (lit ''555-1234'') = Inr bs \<and> ndef_image bs) \<and>
   (\<exists>bs. encode_email (lit ''a@b.c'') (lit ''hi'') [] = Inr bs \<and> ndef_image bs) \<and>
   (\<exists>bs. encode_social (lit ''GitHub '') (lit ''@octo'') = Inr bs \<and> ndef_image bs) \<and>
   (\<exists>bs. encode_wifi (lit ''HomeNet'') (lit ''secret123'') (lit ''WPA2'') False = Inr bs
      \<and> ndef_image bs) \<and>
   encode_text (replicate 247 0x61) (lit ''en'') =
     Inr ([0x03, 254] @ ([0xD1, 0x01, 250, 0x54, 0x02, 0x65, 0x6E] @ replicate 247 0x61) @ [0xFE]) \<and>
   (\<exists>tnf ty payload record.
      make_ndef_record tnf ty payload True True = Inr record \<and> length record = 254 \<and>
      tlv_image ([0x03, 254] @ ([0xD1, 0x01, 250, 0x54, 0x02, 0x65, 0x6E] @ replicate 247 0x61)
                 @ [0xFE]) record) \<and>
   encode_text (replicate 248 0x61) (lit ''en'') =
     Inr ([0x03, 0xFF, 0x00, 0xFF] @ ([0xD1, 0x01, 251, 0x54, 0x02, 0x65, 0x6E] @ replicate 248 0x61)
          @ [0xFE]) \<and>
   (\<exists>tnf ty payload record.
      make_ndef_record tnf ty payload True True = Inr record \<and> length record = 255 \<and>
      tlv_image ([0x03, 0xFF, 0x00, 0xFF] @ ([0xD1, 0x01, 251, 0x54, 0x02, 0x65, 0x6E]
                 @ replicate 248 0x61) @ [0xFE]) record)"
proof -
  have v: "\<forall>c \<in> set (lit s). valid_cp c" for s using lit_valid by blast
  have a: "\<forall>c \<in> set (lit s). c < 128" if "\<forall>c \<in> set s. (of_char c :: nat) < 128" for s
    using that by (simp add: lit_def)
  have m: "map_of SOCIAL_PLATFORMS (lower (strip (lit ''GitHub ''))) \<noteq> None"
    by (simp add: SOCIAL_PLATFORMS_def lit_def strip_def isspace_def lower_def lower_cp_def)
  have n: "strip (lit ''John Smith'') \<noteq> []"
    by (simp add: lit_def strip_def isspace_def)
  note t = encoders_tlv_container[where platform = "lit ''GitHub ''" and username = "lit ''@octo''"
      and url = "lit ''https://example.com/path''" and msg = "lit ''hello''"
      and lang = "lit ''en''" and name = "lit ''John Smith''" and phone = "lit ''123''"
      and email = "[]" and org = "[]" and title = "[]" and vurl = "[]" and address = "[]"
      and vnote = "[]" and number = "lit ''555-1234''" and addr = "lit ''a@b.c''"
      and subject = "lit ''hi''" and body = "[]" and ssid = "lit ''HomeNet''"
      and password = "lit ''secret123''" and auth_type = "lit ''WPA2''" and hidden = False]
  have ex: "\<exists>bs. x = Inr bs \<and> ndef_image bs"
    if "\<exists>bs. x = Inr bs" "\<forall>bs. x = Inr bs \<longrightarrow> ndef_image bs" for x :: "exn + bytes"
    using that by blast
  note k = t
  have c1: "\<exists>bs. encode_url (lit ''https://example.com/path'') = Inr bs \<and> ndef_image bs"
    by (rule ex[OF k[THEN conjunct1, THEN mp] k[THEN conjunct2, THEN conjunct1]])
       (use v[of "''https://example.com/path''"] in \<open>simp add: length_lit\<close>)
  note k = k[THEN conjunct2, THEN conjunct2]
  have c2: "\<exists>bs. encode_text (lit ''hello'') (lit ''en'') = Inr bs \<and> ndef_image bs"
    by (rule ex[OF k[THEN conjunct1, THEN mp] k[THEN conjunct2, THEN conjunct1]])
       (use v[of "''hello''"] a[of "''en''"] in \<open>simp add: length_lit\<close>)
  note k = k[THEN conjunct2, THEN conjunct2]
  have c3: "\<exists>bs. encode_vcard (lit ''John Smith'') (lit ''123'') [] [] [] [] [] [] = Inr bs
      \<and> ndef_image bs"
    by (rule ex[OF k[THEN conjunct1, THEN mp] k[THEN conjunct2, THEN conjunct1]])
       (use n v[of "''John Smith''"] v[of "''123''"] in \<open>simp add: length_lit ball_Un\<close>)
  note k = k[THEN conjunct2, THEN conjunct2]
  have c4: "\<exists>bs. encode_phone (lit ''555-1234'') = Inr bs \<and> ndef_image bs"
    by (rule ex[OF k[THEN conjunct1, THEN mp] k[THEN conjunct2, THEN conjunct1]])
       (use v[of "''555-1234''"] in \<open>simp add: length_lit\<close>)
  note k = k[THEN conjunct2, THEN conjunct2]
  have c5: "\<exists>bs. encode_email (lit ''a@b.c'') (lit ''hi'') [] = Inr bs \<and> ndef_image bs"
    by (rule ex[OF k[THEN conjunct1, THEN mp] k[THEN conjunct2, THEN conjunct1]])
       (use v[of "''a@b.c''"] v[of "''hi''"] in \<open>simp add: length_lit ball_Un\<close>)
  note k = k[THEN conjunct2, THEN conjunct2]
  have c6: "\<exists>bs. encode_social (lit ''GitHub '') (lit ''@octo'') = Inr bs \<and> ndef_image bs"
    by (rule ex[OF k[THEN conjunct1, THEN mp] k[THEN conjunct2, THEN conjunct1]])
       (use m v[of "''@octo''"] in \<open>simp add: length_lit\<close>)
  note k = k[THEN conjunct2, THEN conjunct2]
  have c7: "\<exists>bs. encode_wifi (lit ''HomeNet'') (lit ''secret123'') (lit ''WPA2'') False = Inr bs
      \<and> ndef_image bs"
    by (rule ex[OF k[THEN conjunct1, THEN mp] k[THEN conjunct2]])
       (use v[of "''HomeNet''"] v[of "''secret123''"] in \<open>simp add: length_lit ball_Un\<close>)
  define b2 :: bytes where
    "b2 = [0x03, 254] @ ([0xD1, 0x01, 250, 0x54, 0x02, 0x65, 0x6E] @ replicate 247 0x61) @ [0xFE]"
  define b3 :: bytes where
    "b3 = [0x03, 0xFF, 0x00, 0xFF] @ ([0xD1, 0x01, 251, 0x54, 0x02, 0x65, 0x6E] @ replicate 248 0x61)
          @ [0xFE]"
  have st: "strip (replicate n 0x61) = replicate n 0x61" for n
    by (rule strip_id) (cases n; simp add: isspace_def)
  have u: "utf8_encode (replicate n 0x61) = Inr (replicate n 0x61)" for n
    using utf8_encode_ascii[of "replicate n 0x61"] by simp
  have en: "ascii_encode (lit ''en'') = Inr [0x65, 0x6E]"
    by (simp add: ascii_encode_def lit_def)
  have e2: "encode_text (replicate 247 0x61) (lit ''en'') = Inr b2"
    unfolding b2_def encode_text_def Let_def st u en
    by (simp add: rbind_def make_ndef_record_short wrap_tlv_short blit_def mbme_def)
  have e3: "encode_text (replicate 248 0x61) (lit ''en'') = Inr b3"
    unfolding b3_def encode_text_def Let_def st u en
    by (simp add: rbind_def make_ndef_record_short wrap_tlv_long blit_def mbme_def)
  have d2: "tlv_declared_length b2 = 254"
    by (simp add: b2_def tlv_declared_length_def)
  have d3: "tlv_declared_length b3 = 255"
    by (simp add: b3_def tlv_declared_length_def be_nat_def)
  note i = encoders_tlv_container[where msg = "replicate 247 0x61" and lang = "lit ''en''",
      THEN conjunct2, THEN conjunct2, THEN conjunct2, THEN conjunct1, rule_format, OF e2]
  then obtain tnf ty payload rcd where
    "make_ndef_record tnf ty payload True True = Inr rcd" "tlv_image b2 rcd"
    unfolding ndef_image_def by blast
  then have w2: "\<exists>tnf ty payload record.
      make_ndef_record tnf ty payload True True = Inr record \<and> length record = 254 \<and>
      tlv_image b2 record"
    using d2 unfolding tlv_image_def by metis
  note j = encoders_tlv_container[where msg = "replicate 248 0x61" and lang = "lit ''en''",
      THEN conjunct2, THEN conjunct2, THEN conjunct2, THEN conjunct1, rule_format, OF e3]
  then obtain tnf' ty' payload' rcd' where
    "make_ndef_record tnf' ty' payload' True True = Inr rcd'" "tlv_image b3 rcd'"
    unfolding ndef_image_def by blast
  then have w3: "\<exists>tnf ty payload record.
      make_ndef_record tnf ty payload True True = Inr record \<and> length record = 255 \<and>
      tlv_image b3 record"
    using d3 unfolding tlv_image_def by metis
  show ?thesis
    using c1 c2 c3 c4 c5 c6 c7 e2 w2 e3 w3 unfolding b2_def b3_def by (intro conjI)
qed





section \<open>Operations on a session that is not connected\<close>

lemma unlock_id: "\<not> lock_held r \<Longrightarrow> r\<lparr>lock_held := True\<rparr>\<lparr>lock_held := False\<rparr> = r"
  by (cases r) simp

lemma p_unlock_id: "\<not> p_lock_held p \<Longrightarrow> p\<lparr>p_lock_held := True\<rparr>\<lparr>p_lock_held := False\<rparr> = p"
  by (cases p) simp

lemma connected_lock [simp]: "connected (r\<lparr>lock_held := b\<rparr>) = connected r"
  by (simp add: connected_def)

lemma phone_is_connected_lock [simp]:
  "phone_is_connected (p\<lparr>p_lock_held := b\<rparr>) = phone_is_connected p"
  by (simp add: phone_is_connected_def)

lemma locked_not_connected:
  assumes "\<not> connected r" "\<not> lock_held r"
    and "\<And>r. \<not> connected r \<Longrightarrow> body r = (Returns (failure (lit ''Not connected'')), r)"
  shows "locked body r = (Returns (failure (lit ''Not connected'')), r)"
  using assms(1,2) assms(3)[of "r\<lparr>lock_held := True\<rparr>"]
  by (simp add: locked_def unlock_id)

lemma p_locked_not_connected:
  assumes "\<not> phone_is_connected p" "\<not> p_lock_held p"
    and "\<And>p. \<not> phone_is_connected p \<Longrightarrow>
           body p = (Returns (p_failure (lit ''Phone not connected'')), p)"
  shows "p_locked body p = (Returns (p_failure (lit ''Phone not connected'')), p)"
  using assms(1,2) assms(3)[of "p\<lparr>p_lock_held := True\<rparr>"]
  by (simp add: p_locked_def p_unlock_id)

text \<open>
  Claim C10. On a session that is not connected, each of the five tag operations of the
  serial transport and of the phone transport returns at once the failure outcome with an
  error message (\<^verbatim>\<open>Not connected\<close>, \<^verbatim>\<open>Phone not connected\<close>), and leaves the session as it
  was: nothing is written to the channel (\<open>tx\<close>, \<open>sent\<close>), nothing is read from it, and no
  field of the session changes. The operation takes the session's lock first, so this is
  stated for a call that finds the lock free.
\<close>

theorem not_connected_fails:
  "(\<not> connected r \<and> \<not> lock_held r \<longrightarrow>
      success (failure (lit ''Not connected'')) = False \<and>
      error (failure (lit ''Not connected'')) = Some (lit ''Not connected'') \<and>
      write_ndef r ndef_data tap = (Returns (failure (lit ''Not connected'')), r) \<and>
      erase_tag r tap = (Returns (failure (lit ''Not connected'')), r) \<and>
      read_tag r tap = (Returns (failure (lit ''Not connected'')), r) \<and>
      lock_tag r tap = (Returns (failure (lit ''Not connected'')), r) \<and>
      get_tag_info r tap = (Returns (failure (lit ''Not connected'')), r)) \<and>
   (\<not> phone_is_connected p \<and> \<not> p_lock_held p \<longrightarrow>
      p_success (p_failure (lit ''Phone not connected'')) = False \<and>
      p_error (p_failure (lit ''Phone not connected'')) = Some (lit ''Phone not connected'') \<and>
      p_write_ndef p ndef_data tap = (Returns (p_failure (lit ''Phone not connected'')), p) \<and>
      p_erase_tag p tap = (Returns (p_failure (lit ''Phone not connected'')), p) \<and>
      p_read_tag str_upper p tap = (Returns (p_failure (lit ''Phone not connected'')), p) \<and>
      p_lock_tag p tap = (Returns (p_failure (lit ''Phone not connected'')), p) \<and>
      p_get_tag_info p tap = (Returns (p_failure (lit ''Phone not connected'')), p))"
proof (intro conjI impI)
  assume a: "\<not> connected r \<and> \<not> lock_held r"
  show "success (failure (lit ''Not connected'')) = False"
    by (simp add: failure_def no_outcome_def)
  show "error (failure (lit ''Not connected'')) = Some (lit ''Not connected'')"
    by (simp add: failure_def no_outcome_def)
  show "write_ndef r ndef_data tap = (Returns (failure (lit ''Not connected'')), r)"
    unfolding write_ndef_def using a by (intro locked_not_connected) simp_all
  show "erase_tag r tap = (Returns (failure (lit ''Not connected'')), r)"
    unfolding erase_tag_def using a by (intro locked_not_connected) (simp_all add: two_phase_def)
  show "read_tag r tap = (Returns (failure (lit ''Not connected'')), r)"
    unfolding read_tag_def using a by (intro locked_not_connected) (simp_all add: two_phase_def)
  show "lock_tag r tap = (Returns (failure (lit ''Not connected'')), r)"
    unfolding lock_tag_def using a by (intro locked_not_connected) (simp_all add: two_phase_def)
  show "get_tag_info r tap = (Returns (failure (lit ''Not connected'')), r)"
    unfolding get_tag_info_def using a
    by (intro locked_not_connected) (simp_all add: two_phase_def)
next
  assume a: "\<not> phone_is_connected p \<and> \<not> p_lock_held p"
  show "p_success (p_failure (lit ''Phone not connected'')) = False"
    by (simp add: p_failure_def no_p_outcome_def)
  show "p_error (p_failure (lit ''Phone not connected'')) = Some (lit ''Phone not connected'')"
    by (simp add: p_failure_def no_p_outcome_def)
  show "p_write_ndef p ndef_data tap = (Returns (p_failure (lit ''Phone not connected'')), p)"
    unfolding p_write_ndef_def using a by (intro p_locked_not_connected) simp_all
  show "p_erase_tag p tap = (Returns (p_failure (lit ''Phone not connected'')), p)"
    unfolding p_erase_tag_def using a
    by (intro p_locked_not_connected) (simp_all add: p_single_def)
  show "p_read_tag str_upper p tap = (Returns (p_failure (lit ''Phone not connected'')), p)"
    unfolding p_read_tag_def using a
    by (intro p_locked_not_connected) (simp_all add: p_single_def)
  show "p_lock_tag p tap = (Returns (p_failure (lit ''Phone not connected'')), p)"
    unfolding p_lock_tag_def using a
    by (intro p_locked_not_connected) (simp_all add: p_single_def)
  show "p_get_tag_info p tap = (Returns (p_failure (lit ''Phone not connected'')), p)"
    unfolding p_get_tag_info_def using a
    by (intro p_locked_not_connected) (simp_all add: p_single_def)
qed

theorem not_connected_fails_witness:
  "\<not> connected \<lparr>r_connected = False, r_serial = None, max_retries = 3, lock_held = False,
       port_found = True, open_ok = True, tx = [], rx = [blit ''TAP_CARD''],
       wr_faults = [], taps = 0\<rparr> \<and>
   write_ndef \<lparr>r_connected = False, r_serial = None, max_retries = 3, lock_held = False,
       port_found = True, open_ok = True, tx = [], rx = [blit ''TAP_CARD''],
       wr_faults = [], taps = 0\<rparr> [0x03, 0x00, 0xFE] True =
     (Returns (failure (lit ''Not connected'')),
      \<lparr>r_connected = False, r_serial = None, max_retries = 3, lock_held = False,
       port_found = True, open_ok = True, tx = [], rx = [blit ''TAP_CARD''],
       wr_faults = [], taps = 0\<rparr>) \<and>
   get_tag_info \<lparr>r_connected = False, r_serial = None, max_retries = 3, lock_held = False,
       port_found = True, open_ok = True, tx = [], rx = [blit ''TAP_CARD''],
       wr_faults = [], taps = 0\<rparr> True =
     (Returns (failure (lit ''Not connected'')),
      \<lparr>r_connected = False, r_serial = None, max_retries = 3, lock_held = False,
       port_found = True, open_ok = True, tx = [], rx = [blit ''TAP_CARD''],
       wr_faults = [], taps = 0\<rparr>) \<and>
   \<not> phone_is_connected \<lparr>p_connected = True, phone_ready = False, nfc_supported = True,
       ws_client = True, loop = True, p_max_retries = 3, p_lock_held = False, sent = [],
       replies = [No_reply], p_taps = 0\<rparr> \<and>
   p_write_ndef \<lparr>p_connected = True, phone_ready = False, nfc_supported = True,
       ws_client = True, loop = True, p_max_retries = 3, p_lock_held = False, sent = [],
       replies = [No_reply], p_taps = 0\<rparr> [0x03, 0x00, 0xFE] True =
     (Returns (p_failure (lit ''Phone not connected'')),
      \<lparr>p_connected = True, phone_ready = False, nfc_supported = True,
       ws_client = True, loop = True, p_max_retries = 3, p_lock_held = False, sent = [],
       replies = [No_reply], p_taps = 0\<rparr>) \<and>
   p_erase_tag \<lparr>p_connected = True, phone_ready = False, nfc_supported = True,
       ws_client = True, loop = True, p_max_retries = 3, p_lock_held = False, sent = [],
       replies = [No_reply], p_taps = 0\<rparr> True =
     (Returns (p_failure (lit ''Phone not connected'')),
      \<lparr>p_connected = True, phone_ready = False, nfc_supported = True,
       ws_client = True, loop = True, p_max_retries = 3, p_lock_held = False, sent = [],
       replies = [No_reply], p_taps = 0\<rparr>)"
  using not_connected_fails [of
      "\<lparr>r_connected = False, r_serial = None, max_retries = 3, lock_held = False,
        port_found = True, open_ok = True, tx = [], rx = [blit ''TAP_CARD''],
        wr_faults = [], taps = 0\<rparr>" "[0x03, 0x00, 0xFE]" True
      "\<lparr>p_connected = True, phone_ready = False, nfc_supported = True,
        ws_client = True, loop = True, p_max_retries = 3, p_lock_held = False, sent = [],
        replies = [No_reply], p_taps = 0\<rparr>"]
  by (simp add: connected_def phone_is_connected_def)

section \<open>The serial channel, line by line\<close>

text \<open>
  What \<open>wait_for_response\<close> makes of one raw line: \<open>answers st line\<close> says that the line
  arrives and that its status field, as the code splits and trims it, is \<open>st\<close>;
  \<open>line_data\<close> is its data field and \<open>line_text\<close> the decoded line kept in \<open>raw\<close>.
\<close>

definition line_text :: "bytes \<Rightarrow> str" where
  "line_text line = strip (utf8_decode_replace line)"

definition line_data :: "bytes \<Rightarrow> str" where
  "line_data line =
     (case snd (split_first 0x7C (line_text line)) of Some d \<Rightarrow> strip d | None \<Rightarrow> [])"

definition answers :: "str \<Rightarrow> bytes \<Rightarrow> bool" where
  "answers st line \<longleftrightarrow> line \<noteq> [] \<and> strip (fst (split_first 0x7C (line_text line))) = st"

lemma read_line_frame: "\<exists>ls. snd (read_line r) = r\<lparr>rx := ls\<rparr>"
proof (cases "r_serial r = None \<or> rx r = []")
  case True
  then have "snd (read_line r) = r\<lparr>rx := rx r\<rparr>"
    by (auto simp: read_line_def)
  then show ?thesis ..
next
  case False
  then obtain a rest where "rx r = a # rest" by (cases "rx r") auto
  with False have "snd (read_line r) = r\<lparr>rx := rest\<rparr>"
    by (simp add: read_line_def)
  then show ?thesis ..
qed

lemma wait_loop_frame: "\<exists>ls. snd (wait_loop e t l r) = r\<lparr>rx := ls\<rparr>"
proof (induction e t l r rule: wait_loop.induct)
  case (1 expected remaining lines r)
  show ?case
  proof (cases "remaining = 0")
    case True
    then have "snd (wait_loop expected remaining lines r) = r\<lparr>rx := rx r\<rparr>"
      by (subst wait_loop.simps) simp
    then show ?thesis ..
  next
    case False
    obtain x r' where rl: "read_line r = (x, r')" by (cases "read_line r")
    obtain ls' where r': "r' = r\<lparr>rx := ls'\<rparr>"
      using read_line_frame[of r] rl by auto
    show ?thesis
    proof (cases x)
      case None
      from 1(1)[OF False rl[symmetric] None]
      obtain ls where "snd (wait_loop expected (remaining - 1) lines r') = r'\<lparr>rx := ls\<rparr>" ..
      then have "snd (wait_loop expected remaining lines r) = r\<lparr>rx := ls\<rparr>"
        using False rl None r' by (subst wait_loop.simps) simp
      then show ?thesis ..
    next
      case (Some line)
      define st where "st = strip (fst (split_first 0x7C line))"
      show ?thesis
      proof (cases "st \<in> set expected \<or> st = RESP_ERROR")
        case True
        then have "snd (wait_loop expected remaining lines r) = r\<lparr>rx := ls'\<rparr>"
          using False rl Some r' by (subst wait_loop.simps) (auto simp: Let_def st_def)
        then show ?thesis ..
      next
        case F: False
        from 1(2)[OF False rl[symmetric] Some refl refl refl refl] F
        obtain ls where "snd (wait_loop expected remaining (lines @ [line]) r') = r'\<lparr>rx := ls\<rparr>"
          by (auto simp: st_def)
        then have "snd (wait_loop expected remaining lines r) = r\<lparr>rx := ls\<rparr>"
          using False rl Some r' F by (subst wait_loop.simps) (auto simp: Let_def st_def)
        then show ?thesis ..
      qed
    qed
  qed
qed

lemma wait_frame: "\<exists>ls. snd (wait_for_response e t r) = r\<lparr>rx := ls\<rparr>"
  unfolding wait_for_response_def by (rule wait_loop_frame)

lemma wait_answer:
  assumes "r_serial r \<noteq> None" "rx r = a # rest" "answers st a" "st \<in> set expected" "0 < t"
  shows "wait_for_response expected t r =
           (\<lparr>status = st, data = line_data a, raw = [line_text a]\<rparr>, r\<lparr>rx := rest\<rparr>)"
  using assms unfolding wait_for_response_def
  by (subst wait_loop.simps)
     (auto simp: read_line_def answers_def line_data_def line_text_def Let_def)

lemma wait_silent:
  assumes "r_serial r \<noteq> None" "\<forall>l \<in> set (take t (rx r)). l = []"
  shows "wait_loop expected t lines r =
           (\<lparr>status = lit ''TIMEOUT'', data = [], raw = lines\<rparr>, r\<lparr>rx := drop t (rx r)\<rparr>)"
  using assms
proof (induction t arbitrary: r)
  case 0
  then show ?case by (subst wait_loop.simps) simp
next
  case (Suc t)
  show ?case
  proof (cases "rx r")
    case Nil
    then have rl: "read_line r = (None, r)" using Suc.prems by (auto simp: read_line_def)
    have "wait_loop expected t lines r =
            (\<lparr>status = lit ''TIMEOUT'', data = [], raw = lines\<rparr>, r\<lparr>rx := drop t (rx r)\<rparr>)"
      using Suc.prems Nil by (intro Suc.IH) simp_all
    then show ?thesis using rl Nil by (subst wait_loop.simps) simp
  next
    case (Cons a rest)
    then have a: "a = []" using Suc.prems by simp
    have rl: "read_line r = (None, r\<lparr>rx := rest\<rparr>)"
      using Suc.prems Cons a by (auto simp: read_line_def)
    have "wait_loop expected t lines (r\<lparr>rx := rest\<rparr>) =
            (\<lparr>status = lit ''TIMEOUT'', data = [], raw = lines\<rparr>,
             r\<lparr>rx := rest\<rparr>\<lparr>rx := drop t (rx (r\<lparr>rx := rest\<rparr>))\<rparr>)"
      using Suc.prems Cons by (intro Suc.IH) simp_all
    then show ?thesis using rl Cons by (subst wait_loop.simps) simp
  qed
qed

lemma send_ok:
  assumes "r_serial r = Some True" "\<forall>f \<in> set (take 1 (wr_faults r)). f = None"
  shows "send r c = (None, r\<lparr>tx := tx r @ [c], wr_faults := drop 1 (wr_faults r)\<rparr>)"
proof (cases "wr_faults r")
  case Nil
  then have "r\<lparr>tx := tx r @ [c]\<rparr> = r\<lparr>tx := tx r @ [c], wr_faults := drop 1 (wr_faults r)\<rparr>"
    by (cases r) simp
  then show ?thesis using assms Nil by (simp add: send_def)
next
  case (Cons f fs)
  then show ?thesis using assms by (simp add: send_def)
qed

lemma resp_distinct:
  "RESP_WRITE_FAIL \<noteq> RESP_WRITE_OK" "RESP_WRITE_FAIL \<noteq> RESP_VERIFY_OK"
  "RESP_WRITE_FAIL \<noteq> RESP_DUPLICATE" "RESP_DUPLICATE \<noteq> RESP_WRITE_OK"
  "RESP_DUPLICATE \<noteq> RESP_VERIFY_OK" "lit ''TIMEOUT'' \<noteq> RESP_TAP_CARD"
  "lit ''TIMEOUT'' \<noteq> RESP_ERROR" "lit ''TIMEOUT'' \<noteq> RESP_WRITE_OK"
  "lit ''TIMEOUT'' \<noteq> RESP_VERIFY_OK" "lit ''TIMEOUT'' \<noteq> RESP_DUPLICATE"
  "lit ''TIMEOUT'' \<noteq> RESP_WRITE_FAIL" "RESP_TAP_CARD \<noteq> RESP_ERROR"
  by (simp_all add: RESP_WRITE_FAIL_def RESP_WRITE_OK_def RESP_VERIFY_OK_def RESP_DUPLICATE_def
        RESP_TAP_CARD_def RESP_ERROR_def lit_def)

section \<open>The write loop\<close>

text \<open>
  One attempt whose tap prompt arrives and whose result does not end the call hands the
  rest of the budget the session it leaves behind: the command sent once more, the two
  lines read, the tap callback called once.
\<close>

lemma write_attempt_again:
  assumes s: "r_serial r = Some True" "\<forall>f \<in> set (take 1 (wr_faults r)). f = None"
    and rx: "rx r = a # b # rest"
    and a: "answers RESP_TAP_CARD a"
    and b: "answers st b"
    and st: "st \<in> {RESP_WRITE_FAIL, RESP_ERROR}"
  shows "write_loop command tap (Suc k) attempt r =
           write_loop command tap k (attempt + 1)
             (r\<lparr>tx := tx r @ [command], wr_faults := drop 1 (wr_faults r),
                taps := taps r + (if tap then 1 else 0), rx := rest\<rparr>)"
proof -
  let ?r1 = "r\<lparr>tx := tx r @ [command], wr_faults := drop 1 (wr_faults r)\<rparr>"
  let ?r2 = "?r1\<lparr>rx := b # rest\<rparr>"
  let ?r3 = "(tap_prompt tap ?r2)\<lparr>rx := rest\<rparr>"
  have 1: "send r command = (None, ?r1)" using s by (rule send_ok)
  have 2: "wait_for_response [RESP_TAP_CARD, RESP_ERROR] 5 ?r1 =
             (\<lparr>status = RESP_TAP_CARD, data = line_data a, raw = [line_text a]\<rparr>, ?r2)"
    using s rx a by (intro wait_answer) simp_all
  have 3: "wait_for_response
             [RESP_WRITE_OK, RESP_WRITE_FAIL, RESP_ERROR, RESP_VERIFY_OK, RESP_DUPLICATE] 30
             (tap_prompt tap ?r2) =
             (\<lparr>status = st, data = line_data b, raw = [line_text b]\<rparr>, ?r3)"
    using s b st by (intro wait_answer) (auto simp: tap_prompt_def)
  have ne: "st \<noteq> RESP_WRITE_OK" "st \<noteq> RESP_VERIFY_OK" "st \<noteq> RESP_DUPLICATE"
    using st
    by (auto simp: RESP_WRITE_FAIL_def RESP_WRITE_OK_def RESP_VERIFY_OK_def RESP_DUPLICATE_def
          RESP_ERROR_def lit_def)
  have 4: "?r3 = r\<lparr>tx := tx r @ [command], wr_faults := drop 1 (wr_faults r),
                     taps := taps r + (if tap then 1 else 0), rx := rest\<rparr>"
    by (cases r) (simp add: tap_prompt_def)
  show ?thesis
    by (simp only: write_loop.simps 1 2 3 prod.case option.case response.simps ne if_False
          if_True refl 4 if_cancel)
qed

fun tap_then_write_fail :: "nat \<Rightarrow> bytes list \<Rightarrow> bool" where
  "tap_then_write_fail 0 ls = True"
| "tap_then_write_fail (Suc n) ls =
     (case ls of
        a # b # rest \<Rightarrow>
          answers RESP_TAP_CARD a \<and> answers RESP_WRITE_FAIL b \<and> tap_then_write_fail n rest
      | _ \<Rightarrow> False)"

lemma write_loop_fails:
  assumes "r_serial r = Some True" "\<forall>f \<in> set (take k (wr_faults r)). f = None"
    and "tap_then_write_fail k (rx r)"
  shows "write_loop command tap k attempt r =
           (Returns (failure (lit ''Failed after '' @ str_int (max_retries r) @ lit '' attempts'')),
            r\<lparr>tx := tx r @ replicate k command, wr_faults := drop k (wr_faults r),
              taps := taps r + (if tap then k else 0), rx := drop (2 * k) (rx r)\<rparr>)"
  using assms
proof (induction k arbitrary: attempt r)
  case 0
  have "r\<lparr>tx := tx r @ replicate 0 command, wr_faults := drop 0 (wr_faults r),
          taps := taps r + (if tap then 0 else 0), rx := drop (2 * 0) (rx r)\<rparr> = r"
    by (cases r) simp
  then show ?case by simp
next
  case (Suc k)
  from Suc.prems(3) obtain a b rest where rx: "rx r = a # b # rest"
    and a: "answers RESP_TAP_CARD a" and b: "answers RESP_WRITE_FAIL b"
    and rest: "tap_then_write_fail k rest"
    by (auto split: list.splits)
  let ?r = "r\<lparr>tx := tx r @ [command], wr_faults := drop 1 (wr_faults r),
               taps := taps r + (if tap then 1 else 0), rx := rest\<rparr>"
  have f1: "\<forall>f \<in> set (take 1 (wr_faults r)). f = None"
    using Suc.prems(2) by (cases "wr_faults r") simp_all
  have fk: "\<forall>f \<in> set (take k (wr_faults ?r)). f = None"
    using Suc.prems(2) by (cases "wr_faults r") simp_all
  have step: "write_loop command tap (Suc k) attempt r =
                write_loop command tap k (attempt + 1) ?r"
    using Suc.prems(1) f1 rx a b by (rule write_attempt_again) simp
  have ih: "write_loop command tap k (attempt + 1) ?r =
           (Returns (failure (lit ''Failed after '' @ str_int (max_retries ?r) @ lit '' attempts'')),
            ?r\<lparr>tx := tx ?r @ replicate k command, wr_faults := drop k (wr_faults ?r),
              taps := taps ?r + (if tap then k else 0), rx := drop (2 * k) (rx ?r)\<rparr>)"
    using Suc.prems(1) fk rest by (intro Suc.IH) simp_all
  have eq: "?r\<lparr>tx := tx ?r @ replicate k command, wr_faults := drop k (wr_faults ?r),
              taps := taps ?r + (if tap then k else 0), rx := drop (2 * k) (rx ?r)\<rparr> =
            r\<lparr>tx := tx r @ replicate (Suc k) command, wr_faults := drop (Suc k) (wr_faults r),
              taps := taps r + (if tap then Suc k else 0), rx := drop (2 * Suc k) (rx r)\<rparr>"
    using rx by (cases r) (simp add: drop_Suc drop_tl)
  show ?case unfolding step ih eq by simp
qed

lemma write_ndef_fails:
  assumes "connected r" "\<not> lock_held r"
    and "\<forall>f \<in> set (take (nat (max_retries r)) (wr_faults r)). f = None"
    and "tap_then_write_fail (nat (max_retries r)) (rx r)"
  shows "write_ndef r ndef_data tap =
           (Returns (failure (lit ''Failed after '' @ str_int (max_retries r) @ lit '' attempts'')),
            r\<lparr>tx := tx r @ replicate (nat (max_retries r))
                              (CMD_WRITE_RAW @ lit ''|'' @ bytes_to_hex ndef_data),
              wr_faults := drop (nat (max_retries r)) (wr_faults r),
              taps := taps r + (if tap then nat (max_retries r) else 0),
              rx := drop (2 * nat (max_retries r)) (rx r)\<rparr>)"
proof -
  let ?r = "r\<lparr>lock_held := True\<rparr>"
  let ?n = "nat (max_retries r)"
  let ?c = "CMD_WRITE_RAW @ lit ''|'' @ bytes_to_hex ndef_data"
  have s: "r_serial ?r = Some True" using assms(1) by (simp add: connected_def)
  have loop: "write_loop ?c tap (nat (max_retries ?r)) 1 ?r =
           (Returns (failure (lit ''Failed after '' @ str_int (max_retries ?r) @ lit '' attempts'')),
            ?r\<lparr>tx := tx ?r @ replicate (nat (max_retries ?r)) ?c,
              wr_faults := drop (nat (max_retries ?r)) (wr_faults ?r),
              taps := taps ?r + (if tap then nat (max_retries ?r) else 0),
              rx := drop (2 * nat (max_retries ?r)) (rx ?r)\<rparr>)"
    using s assms(3,4) by (intro write_loop_fails) simp_all
  have eq: "?r\<lparr>tx := tx ?r @ replicate (nat (max_retries ?r)) ?c,
              wr_faults := drop (nat (max_retries ?r)) (wr_faults ?r),
              taps := taps ?r + (if tap then nat (max_retries ?r) else 0),
              rx := drop (2 * nat (max_retries ?r)) (rx ?r)\<rparr>\<lparr>lock_held := False\<rparr> =
            r\<lparr>tx := tx r @ replicate ?n ?c, wr_faults := drop ?n (wr_faults r),
              taps := taps r + (if tap then ?n else 0), rx := drop (2 * ?n) (rx r)\<rparr>"
    using assms(2) by (cases r) simp
  have m: "max_retries ?r = max_retries r" by simp
  show ?thesis
    using assms(1,2) unfolding write_ndef_def locked_def
    by (simp only: connected_lock Let_def if_False if_True not_True_eq_False
          not_False_eq_True prod.case res.case eq[unfolded m] simp_thms m loop[unfolded m])
qed

lemma send_frame:
  assumes "send r c = (x, r')"
  shows "lock_held r' = lock_held r" "x = None \<Longrightarrow> tx r' = tx r @ [c]"
    "x \<noteq> None \<Longrightarrow> tx r' = tx r"
  using assms by (auto simp: send_def split: if_splits list.splits option.splits)

lemma reconnect_locked: "lock_held r \<Longrightarrow> reconnect r = None"
  by (simp add: reconnect_def disconnect_def)

lemma write_loop_sends:
  assumes "lock_held r"
  shows "\<exists>j\<le>k. tx (snd (write_loop c tap k a r)) = tx r @ replicate j c"
  using assms
proof (induction k arbitrary: a r)
  case 0
  have "tx (snd (write_loop c tap 0 a r)) = tx r @ replicate 0 c" by simp
  then show ?case by blast
next
  case (Suc k)
  obtain x r1 where sd: "send r c = (x, r1)" by (cases "send r c")
  note fr = send_frame[OF sd]
  have l1: "lock_held r1" using fr(1) Suc.prems by simp
  show ?case
  proof (cases x)
    case (Some em)
    obtain e msg where em: "em = (e, msg)" by (cases em)
    have "snd (write_loop c tap (Suc k) a r) = r1"
      using sd Some em reconnect_locked[OF l1] by simp
    then have "tx (snd (write_loop c tap (Suc k) a r)) = tx r @ replicate 0 c"
      using fr(3) Some by simp
    then show ?thesis by blast
  next
    case None
    have t1: "tx r1 = tx r @ [c]" using fr(2) None by simp
    obtain resp r2 where w1: "wait_for_response [RESP_TAP_CARD, RESP_ERROR] 5 r1 = (resp, r2)"
      by (cases "wait_for_response [RESP_TAP_CARD, RESP_ERROR] 5 r1")
    obtain ls where "r2 = r1\<lparr>rx := ls\<rparr>"
      using wait_frame[of "[RESP_TAP_CARD, RESP_ERROR]" 5 r1] w1 by auto
    then have r2: "tx r2 = tx r @ [c]" "lock_held r2" using t1 l1 by simp_all
    obtain result r3 where w2: "wait_for_response
        [RESP_WRITE_OK, RESP_WRITE_FAIL, RESP_ERROR, RESP_VERIFY_OK, RESP_DUPLICATE] 30
        (tap_prompt tap r2) = (result, r3)"
      by (cases "wait_for_response
        [RESP_WRITE_OK, RESP_WRITE_FAIL, RESP_ERROR, RESP_VERIFY_OK, RESP_DUPLICATE] 30
        (tap_prompt tap r2)")
    obtain ls' where "r3 = (tap_prompt tap r2)\<lparr>rx := ls'\<rparr>"
      using wait_frame[of "[RESP_WRITE_OK, RESP_WRITE_FAIL, RESP_ERROR, RESP_VERIFY_OK,
        RESP_DUPLICATE]" 30 "tap_prompt tap r2"] w2 by auto
    then have r3: "tx r3 = tx r @ [c]" "lock_held r3" using r2 by (simp_all add: tap_prompt_def)
    have "snd (write_loop c tap (Suc k) a r) \<in>
            {r2, r3, snd (write_loop c tap k (a + 1) r2), snd (write_loop c tap k (a + 1) r3)}"
      using sd None w1 w2 by simp
    then consider
        (now) r' where "snd (write_loop c tap (Suc k) a r) = r'" "tx r' = tx r @ [c]"
      | (later) r' where "snd (write_loop c tap (Suc k) a r) = snd (write_loop c tap k (a + 1) r')"
          "tx r' = tx r @ [c]" "lock_held r'"
      using r2 r3 by auto
    then show ?thesis
    proof cases
      case now
      then have "tx (snd (write_loop c tap (Suc k) a r)) = tx r @ replicate 1 c" by simp
      then show ?thesis by (intro exI[of _ 1]) simp
    next
      case later
      from Suc.IH[OF later(3), of "a + 1"] obtain j where
        j: "j \<le> k" "tx (snd (write_loop c tap k (a + 1) r')) = tx r' @ replicate j c"
        by blast
      then have "tx (snd (write_loop c tap (Suc k) a r)) = tx r @ replicate (Suc j) c"
        using later by simp
      then show ?thesis using j(1) by (intro exI[of _ "Suc j"]) simp
    qed
  qed
qed

lemma write_ndef_sends:
  "\<exists>j\<le>nat (max_retries r).
     tx (snd (write_ndef r ndef_data tap)) =
       tx r @ replicate j (CMD_WRITE_RAW @ lit ''|'' @ bytes_to_hex ndef_data)"
proof -
  let ?c = "CMD_WRITE_RAW @ lit ''|'' @ bytes_to_hex ndef_data"
  let ?r = "r\<lparr>lock_held := True\<rparr>"
  let ?w = "write_loop ?c tap (nat (max_retries r)) 1 ?r"
  have "tx (snd (write_ndef r ndef_data tap)) = tx r \<or>
        tx (snd (write_ndef r ndef_data tap)) = tx (snd ?w)"
    by (cases "fst ?w") (simp_all add: write_ndef_def locked_def Let_def split_beta)
  moreover obtain j where "j \<le> nat (max_retries r)" "tx (snd ?w) = tx ?r @ replicate j ?c"
    using write_loop_sends[of ?r "nat (max_retries r)" ?c tap 1] by auto
  ultimately have "tx (snd (write_ndef r ndef_data tap)) = tx r @ replicate 0 ?c \<or>
        tx (snd (write_ndef r ndef_data tap)) = tx r @ replicate j ?c"
    by simp
  then show ?thesis using \<open>j \<le> nat (max_retries r)\<close> by (elim disjE) blast+
qed

section \<open>Concrete channels\<close>

lemma line_text_ascii:
  assumes "\<forall>b \<in> set bs. b < 128"
  shows "line_text bs = strip (map unat bs)"
proof -
  have a: "\<forall>c \<in> set (map unat bs). c < 128"
    using assms by (auto simp: word_less_nat_alt)
  have "map of_nat (map unat bs) = bs" by (simp add: map_idI)
  with utf8_roundtrip_whole[OF utf8_encode_ascii[OF a]] show ?thesis
    by (simp add: line_text_def)
qed

lemmas line_eval = answers_def line_data_def line_text_ascii split_first_def strip_def
  isspace_def lit_def blit_def RESP_TAP_CARD_def RESP_WRITE_FAIL_def RESP_DUPLICATE_def
  RESP_ERROR_def

lemmas command_eval = CMD_WRITE_RAW_def bytes_to_hex_def hex_def hex_digit_def upper_def
  upper_cp_def str_int_def digits.simps lit_def

lemma three: "(3::nat) = Suc (Suc (Suc 0))"
  by simp

section \<open>A write that always fails\<close>



section \<open>A write that meets a tag with data\<close>

lemma write_loop_skip:
  assumes "r_serial r = Some True" "\<forall>f \<in> set (take j (wr_faults r)). f = None"
    and "tap_then_write_fail j (rx r)"
  shows "write_loop command tap (j + k) attempt r =
           write_loop command tap k (attempt + int j)
             (r\<lparr>tx := tx r @ replicate j command, wr_faults := drop j (wr_faults r),
                taps := taps r + (if tap then j else 0), rx := drop (2 * j) (rx r)\<rparr>)"
  using assms
proof (induction j arbitrary: attempt r)
  case 0
  have "r\<lparr>tx := tx r @ replicate 0 command, wr_faults := drop 0 (wr_faults r),
          taps := taps r + (if tap then 0 else 0), rx := drop (2 * 0) (rx r)\<rparr> = r"
    by (cases r) simp
  then show ?case by simp
next
  case (Suc j)
  from Suc.prems(3) obtain a b rest where rx: "rx r = a # b # rest"
    and a: "answers RESP_TAP_CARD a" and b: "answers RESP_WRITE_FAIL b"
    and rest: "tap_then_write_fail j rest"
    by (auto split: list.splits)
  let ?r = "r\<lparr>tx := tx r @ [command], wr_faults := drop 1 (wr_faults r),
               taps := taps r + (if tap then 1 else 0), rx := rest\<rparr>"
  have f1: "\<forall>f \<in> set (take 1 (wr_faults r)). f = None"
    using Suc.prems(2) by (cases "wr_faults r") simp_all
  have fk: "\<forall>f \<in> set (take j (wr_faults ?r)). f = None"
    using Suc.prems(2) by (cases "wr_faults r") simp_all
  have step: "write_loop command tap (Suc (j + k)) attempt r =
                write_loop command tap (j + k) (attempt + 1) ?r"
    using Suc.prems(1) f1 rx a b by (rule write_attempt_again) simp
  have ih: "write_loop command tap (j + k) (attempt + 1) ?r =
           write_loop command tap k (attempt + 1 + int j)
            (?r\<lparr>tx := tx ?r @ replicate j command, wr_faults := drop j (wr_faults ?r),
              taps := taps ?r + (if tap then j else 0), rx := drop (2 * j) (rx ?r)\<rparr>)"
    using Suc.prems(1) fk rest by (intro Suc.IH) simp_all
  have eq: "?r\<lparr>tx := tx ?r @ replicate j command, wr_faults := drop j (wr_faults ?r),
              taps := taps ?r + (if tap then j else 0), rx := drop (2 * j) (rx ?r)\<rparr> =
            r\<lparr>tx := tx r @ replicate (Suc j) command, wr_faults := drop (Suc j) (wr_faults r),
              taps := taps r + (if tap then Suc j else 0), rx := drop (2 * Suc j) (rx r)\<rparr>"
    using rx by (cases r) (simp add: drop_Suc drop_tl)
  have n: "attempt + 1 + int j = attempt + int (Suc j)" by simp
  show ?case using step ih unfolding eq n by simp
qed

definition duplicate_outcome :: "str \<Rightarrow> outcome" where
  "duplicate_outcome u =
     no_outcome\<lparr>success := False, error := Some (lit ''Tag already contains data''),
                 duplicate := Some True, uid := Some u\<rparr>"

lemma write_attempt_duplicate:
  assumes s: "r_serial r = Some True" "\<forall>f \<in> set (take 1 (wr_faults r)). f = None"
    and rx: "rx r = a # b # rest"
    and a: "answers RESP_TAP_CARD a"
    and b: "answers RESP_DUPLICATE b"
  shows "write_loop command tap (Suc k) attempt r =
           (Returns (duplicate_outcome (line_data b)),
            r\<lparr>tx := tx r @ [command], wr_faults := drop 1 (wr_faults r),
              taps := taps r + (if tap then 1 else 0), rx := rest\<rparr>)"
proof -
  let ?r1 = "r\<lparr>tx := tx r @ [command], wr_faults := drop 1 (wr_faults r)\<rparr>"
  let ?r2 = "?r1\<lparr>rx := b # rest\<rparr>"
  let ?r3 = "(tap_prompt tap ?r2)\<lparr>rx := rest\<rparr>"
  have 1: "send r command = (None, ?r1)" using s by (rule send_ok)
  have 2: "wait_for_response [RESP_TAP_CARD, RESP_ERROR] 5 ?r1 =
             (\<lparr>status = RESP_TAP_CARD, data = line_data a, raw = [line_text a]\<rparr>, ?r2)"
    using s rx a by (intro wait_answer) simp_all
  have 3: "wait_for_response
             [RESP_WRITE_OK, RESP_WRITE_FAIL, RESP_ERROR, RESP_VERIFY_OK, RESP_DUPLICATE] 30
             (tap_prompt tap ?r2) =
             (\<lparr>status = RESP_DUPLICATE, data = line_data b, raw = [line_text b]\<rparr>, ?r3)"
    using s b by (intro wait_answer) (auto simp: tap_prompt_def)
  have 4: "?r3 = r\<lparr>tx := tx r @ [command], wr_faults := drop 1 (wr_faults r),
                     taps := taps r + (if tap then 1 else 0), rx := rest\<rparr>"
    by (cases r) (simp add: tap_prompt_def)
  show ?thesis
    by (simp only: write_loop.simps 1 2 3 prod.case option.case response.simps resp_distinct
          if_False if_True refl 4 duplicate_outcome_def)
qed

lemma write_ndef_duplicate:
  assumes "connected r" "\<not> lock_held r" "j < nat (max_retries r)"
    and "\<forall>f \<in> set (take (Suc j) (wr_faults r)). f = None"
    and "tap_then_write_fail j (rx r)"
    and "drop (2 * j) (rx r) = a # b # rest"
    and "answers RESP_TAP_CARD a" "answers RESP_DUPLICATE b"
  shows "write_ndef r ndef_data tap =
           (Returns (duplicate_outcome (line_data b)),
            r\<lparr>tx := tx r @ replicate (Suc j) (CMD_WRITE_RAW @ lit ''|'' @ bytes_to_hex ndef_data),
              wr_faults := drop (Suc j) (wr_faults r),
              taps := taps r + (if tap then Suc j else 0), rx := rest\<rparr>)"
proof -
  let ?r = "r\<lparr>lock_held := True\<rparr>"
  let ?c = "CMD_WRITE_RAW @ lit ''|'' @ bytes_to_hex ndef_data"
  let ?rj = "?r\<lparr>tx := tx ?r @ replicate j ?c, wr_faults := drop j (wr_faults ?r),
                taps := taps ?r + (if tap then j else 0), rx := drop (2 * j) (rx ?r)\<rparr>"
  define k where "k = nat (max_retries r) - Suc j"
  have k: "nat (max_retries r) = j + Suc k"
    using assms(3) by (simp add: k_def)
  have s: "r_serial ?r = Some True" using assms(1) by (simp add: connected_def)
  have fj: "\<forall>f \<in> set (take j (wr_faults ?r)). f = None"
    using assms(4) set_take_subset_set_take[of j "Suc j" "wr_faults r"] by auto
  have skip: "write_loop ?c tap (j + Suc k) 1 ?r = write_loop ?c tap (Suc k) (1 + int j) ?rj"
    using s fj assms(5) by (intro write_loop_skip) simp_all
  have "take (Suc j) (wr_faults r) = take j (wr_faults r) @ take 1 (drop j (wr_faults r))"
    using take_add[of j 1 "wr_faults r"] by simp
  then have f1: "\<forall>f \<in> set (take 1 (wr_faults ?rj)). f = None"
    using assms(4) by simp
  have dup: "write_loop ?c tap (Suc k) (1 + int j) ?rj =
           (Returns (duplicate_outcome (line_data b)),
            ?rj\<lparr>tx := tx ?rj @ [?c], wr_faults := drop 1 (wr_faults ?rj),
              taps := taps ?rj + (if tap then 1 else 0), rx := rest\<rparr>)"
    using s f1 assms(6,7,8) by (intro write_attempt_duplicate) simp_all
  have rep: "replicate j ?c @ [?c] = replicate (Suc j) ?c"
    by (simp add: replicate_append_same)
  have eq: "?rj\<lparr>tx := tx ?rj @ [?c], wr_faults := drop 1 (wr_faults ?rj),
              taps := taps ?rj + (if tap then 1 else 0), rx := rest\<rparr>\<lparr>lock_held := False\<rparr> =
            r\<lparr>tx := tx r @ replicate (Suc j) ?c, wr_faults := drop (Suc j) (wr_faults r),
              taps := taps r + (if tap then Suc j else 0), rx := rest\<rparr>"
    using assms(2) rep by (cases r) simp
  have m: "max_retries ?r = max_retries r" by simp
  show ?thesis
    using assms(1,2) unfolding write_ndef_def locked_def
    by (simp only: connected_lock Let_def if_False if_True not_True_eq_False
          not_False_eq_True prod.case res.case m k skip dup eq simp_thms)
qed

lemma write_command_not_erase:
  "CMD_WRITE_RAW @ lit ''|'' @ bytes_to_hex ndef_data \<noteq> CMD_ERASE"
  by (simp add: CMD_WRITE_RAW_def CMD_ERASE_def lit_def)

lemma do_write_sends:
  assumes "True \<notin> set (tl confirms)"
  shows "\<exists>n. tx (fst (snd (do_write r confirms ndef_data))) =
           tx r @ replicate n (CMD_WRITE_RAW @ lit ''|'' @ bytes_to_hex ndef_data)"
proof -
  let ?c = "CMD_WRITE_RAW @ lit ''|'' @ bytes_to_hex ndef_data"
  obtain x r1 where w: "write_ndef r ndef_data True = (x, r1)"
    by (cases "write_ndef r ndef_data True")
  obtain j where j: "tx r1 = tx r @ replicate j ?c"
    using write_ndef_sends[of r ndef_data True] w by auto
  have "fst (snd (do_write r confirms ndef_data)) = r \<or>
        fst (snd (do_write r confirms ndef_data)) = r1"
  proof (cases confirms)
    case Nil
    then show ?thesis by (simp add: do_write.simps)
  next
    case (Cons proceed rest)
    then have "rest = [] \<or> (\<exists>rest'. rest = False # rest')"
      using assms by (cases rest) auto
    then show ?thesis
      using Cons w by (cases x) (auto simp: do_write.simps)
  qed
  then have "tx (fst (snd (do_write r confirms ndef_data))) = tx r @ replicate 0 ?c \<or>
             tx (fst (snd (do_write r confirms ndef_data))) = tx r @ replicate j ?c"
    using j by auto
  then show ?thesis by blast
qed



section \<open>Waits that time out\<close>

text \<open>
  A wait times out when every read it makes returns nothing: the next lines of the channel
  are empty, or the channel has no more lines. The wait for the tap prompt makes five
  reads, the wait for the result thirty.
\<close>

definition tap_wait_times_out :: "bytes list \<Rightarrow> bool" where
  "tap_wait_times_out ls \<longleftrightarrow> (\<forall>l \<in> set (take 5 ls). l = [])"

definition result_wait_times_out :: "bytes list \<Rightarrow> bool" where
  "result_wait_times_out ls \<longleftrightarrow>
     (case ls of [] \<Rightarrow> False
      | a # rest \<Rightarrow> answers RESP_TAP_CARD a \<and> (\<forall>l \<in> set (take 30 rest). l = []))"

fun waits_time_out :: "nat \<Rightarrow> bytes list \<Rightarrow> bool" where
  "waits_time_out 0 ls = True"
| "waits_time_out (Suc n) ls =
     ((tap_wait_times_out ls \<and> waits_time_out n (drop 5 ls)) \<or>
      (result_wait_times_out ls \<and> waits_time_out n (drop 31 ls)))"

lemma wait_times_out:
  assumes "r_serial r \<noteq> None" "\<forall>l \<in> set (take t (rx r)). l = []"
  shows "wait_for_response expected t r =
           (\<lparr>status = lit ''TIMEOUT'', data = [], raw = []\<rparr>, r\<lparr>rx := drop t (rx r)\<rparr>)"
  unfolding wait_for_response_def using assms by (rule wait_silent)

lemma write_attempt_tap_timeout:
  assumes s: "r_serial r = Some True" "\<forall>f \<in> set (take 1 (wr_faults r)). f = None"
    and t: "tap_wait_times_out (rx r)"
  shows "write_loop command tap (Suc k) attempt r =
           write_loop command tap k (attempt + 1)
             (r\<lparr>tx := tx r @ [command], wr_faults := drop 1 (wr_faults r),
                rx := drop 5 (rx r)\<rparr>)"
proof -
  let ?r1 = "r\<lparr>tx := tx r @ [command], wr_faults := drop 1 (wr_faults r)\<rparr>"
  let ?r2 = "?r1\<lparr>rx := drop 5 (rx ?r1)\<rparr>"
  have 1: "send r command = (None, ?r1)" using s by (rule send_ok)
  have 2: "wait_for_response [RESP_TAP_CARD, RESP_ERROR] 5 ?r1 =
             (\<lparr>status = lit ''TIMEOUT'', data = [], raw = []\<rparr>, ?r2)"
    using s t by (intro wait_times_out) (auto simp: tap_wait_times_out_def)
  have 4: "?r2 = r\<lparr>tx := tx r @ [command], wr_faults := drop 1 (wr_faults r),
                     rx := drop 5 (rx r)\<rparr>"
    by (cases r) simp
  show ?thesis
    by (simp only: write_loop.simps 1 2 prod.case option.case response.simps resp_distinct
          if_False if_True refl 4 if_cancel)
qed

lemma write_attempt_result_timeout:
  assumes s: "r_serial r = Some True" "\<forall>f \<in> set (take 1 (wr_faults r)). f = None"
    and t: "result_wait_times_out (rx r)"
  shows "write_loop command tap (Suc k) attempt r =
           write_loop command tap k (attempt + 1)
             (r\<lparr>tx := tx r @ [command], wr_faults := drop 1 (wr_faults r),
                taps := taps r + (if tap then 1 else 0), rx := drop 31 (rx r)\<rparr>)"
proof -
  from t obtain a rest where rx: "rx r = a # rest" and a: "answers RESP_TAP_CARD a"
    and q: "\<forall>l \<in> set (take 30 rest). l = []"
    by (auto simp: result_wait_times_out_def split: list.splits)
  let ?r1 = "r\<lparr>tx := tx r @ [command], wr_faults := drop 1 (wr_faults r)\<rparr>"
  let ?r2 = "?r1\<lparr>rx := rest\<rparr>"
  let ?r3 = "(tap_prompt tap ?r2)\<lparr>rx := drop 30 (rx (tap_prompt tap ?r2))\<rparr>"
  have 1: "send r command = (None, ?r1)" using s by (rule send_ok)
  have 2: "wait_for_response [RESP_TAP_CARD, RESP_ERROR] 5 ?r1 =
             (\<lparr>status = RESP_TAP_CARD, data = line_data a, raw = [line_text a]\<rparr>, ?r2)"
    using s rx a by (intro wait_answer) simp_all
  have 3: "wait_for_response
             [RESP_WRITE_OK, RESP_WRITE_FAIL, RESP_ERROR, RESP_VERIFY_OK, RESP_DUPLICATE] 30
             (tap_prompt tap ?r2) =
             (\<lparr>status = lit ''TIMEOUT'', data = [], raw = []\<rparr>, ?r3)"
    using s q by (intro wait_times_out) (auto simp: tap_prompt_def)
  have 4: "?r3 = r\<lparr>tx := tx r @ [command], wr_faults := drop 1 (wr_faults r),
                     taps := taps r + (if tap then 1 else 0), rx := drop 31 (rx r)\<rparr>"
    using rx by (cases r) (simp add: tap_prompt_def)
  show ?thesis
    by (simp only: write_loop.simps 1 2 3 prod.case option.case response.simps resp_distinct
          if_False if_True refl 4 if_cancel)
qed

lemma write_loop_times_out:
  assumes "r_serial r = Some True" "\<forall>f \<in> set (take k (wr_faults r)). f = None"
    and "waits_time_out k (rx r)"
  shows "fst (write_loop command tap k attempt r) =
           Returns (failure (lit ''Failed after '' @ str_int (max_retries r) @ lit '' attempts'')) \<and>
         tx (snd (write_loop command tap k attempt r)) = tx r @ replicate k command"
  using assms
proof (induction k arbitrary: attempt r)
  case 0
  then show ?case by simp
next
  case (Suc k)
  have f1: "\<forall>f \<in> set (take 1 (wr_faults r)). f = None"
    using Suc.prems(2) by (cases "wr_faults r") simp_all
  have fk: "\<forall>f \<in> set (take k (drop 1 (wr_faults r))). f = None"
    using Suc.prems(2) by (cases "wr_faults r") simp_all
  from Suc.prems(3) consider
      (tap) "tap_wait_times_out (rx r)" "waits_time_out k (drop 5 (rx r))"
    | (result) "result_wait_times_out (rx r)" "waits_time_out k (drop 31 (rx r))"
    by auto
  then obtain r' where step: "write_loop command tap (Suc k) attempt r =
        write_loop command tap k (attempt + 1) r'"
    and r': "r_serial r' = Some True" "wr_faults r' = drop 1 (wr_faults r)"
      "waits_time_out k (rx r')" "max_retries r' = max_retries r" "tx r' = tx r @ [command]"
  proof cases
    case tap
    show ?thesis
      by (rule that[OF write_attempt_tap_timeout[OF Suc.prems(1) f1 tap(1)]])
         (use Suc.prems(1) tap(2) in simp_all)
  next
    case result
    show ?thesis
      by (rule that[OF write_attempt_result_timeout[OF Suc.prems(1) f1 result(1)]])
         (use Suc.prems(1) result(2) in simp_all)
  qed
  have "fst (write_loop command tap k (attempt + 1) r') =
          Returns (failure (lit ''Failed after '' @ str_int (max_retries r') @ lit '' attempts'')) \<and>
        tx (snd (write_loop command tap k (attempt + 1) r')) = tx r' @ replicate k command"
    using r'(1,3) fk unfolding r'(2)[symmetric] by (intro Suc.IH)
  then show ?case unfolding step r'(4,5) by simp
qed

lemma write_ndef_times_out:
  assumes "connected r" "\<not> lock_held r"
    and "\<forall>f \<in> set (take (nat (max_retries r)) (wr_faults r)). f = None"
    and "waits_time_out (nat (max_retries r)) (rx r)"
  shows "fst (write_ndef r ndef_data tap) =
           Returns (failure (lit ''Failed after '' @ str_int (max_retries r) @ lit '' attempts''))"
    and "tx (snd (write_ndef r ndef_data tap)) =
           tx r @ replicate (nat (max_retries r))
                    (CMD_WRITE_RAW @ lit ''|'' @ bytes_to_hex ndef_data)"
proof -
  let ?r = "r\<lparr>lock_held := True\<rparr>"
  let ?c = "CMD_WRITE_RAW @ lit ''|'' @ bytes_to_hex ndef_data"
  let ?w = "write_loop ?c tap (nat (max_retries r)) 1 ?r"
  have s: "r_serial ?r = Some True" using assms(1) by (simp add: connected_def)
  have w: "fst ?w =
      Returns (failure (lit ''Failed after '' @ str_int (max_retries ?r) @ lit '' attempts'')) \<and>
      tx (snd ?w) = tx ?r @ replicate (nat (max_retries r)) ?c"
    using s assms(3,4) by (intro write_loop_times_out) simp_all
  have n: "write_ndef r ndef_data tap = (fst ?w, (snd ?w)\<lparr>lock_held := False\<rparr>)"
    using assms(1,2) w by (cases ?w) (simp add: write_ndef_def locked_def Let_def)
  show "fst (write_ndef r ndef_data tap) =
           Returns (failure (lit ''Failed after '' @ str_int (max_retries r) @ lit '' attempts''))"
    using w unfolding n by simp
  show "tx (snd (write_ndef r ndef_data tap)) = tx r @ replicate (nat (max_retries r)) ?c"
    using w unfolding n by simp
qed

section \<open>Operations that make one attempt\<close>

definition attempt_errors :: "bytes list \<Rightarrow> bool" where
  \<comment> \<open>the device answers \<^verbatim>\<open>ERROR\<close>, to the command or after the tap prompt\<close>
  "attempt_errors ls \<longleftrightarrow>
     (case ls of
        [] \<Rightarrow> False
      | a # rest \<Rightarrow>
          answers RESP_ERROR a \<or>
          (answers RESP_TAP_CARD a \<and> (case rest of [] \<Rightarrow> False | b # rest' \<Rightarrow> answers RESP_ERROR b)))"

definition attempt_fails :: "bytes list \<Rightarrow> bool" where
  "attempt_fails ls \<longleftrightarrow> tap_wait_times_out ls \<or> result_wait_times_out ls \<or> attempt_errors ls"

lemma two_phase_fails:
  assumes c: "connected r" and f: "\<forall>f \<in> set (take 1 (wr_faults r)). f = None"
    and a: "attempt_fails (rx r)"
    and t: "RESP_ERROR \<in> set terminal"
    and o: "\<And>d rw. on_result \<lparr>status = RESP_ERROR, data = d, raw = rw\<rparr> = None"
      "\<And>d rw. on_result \<lparr>status = lit ''TIMEOUT'', data = d, raw = rw\<rparr> = None"
  shows "\<exists>msg r'. two_phase cmd terminal on_result tap r = (Returns (failure msg), r') \<and>
           tx r' = tx r @ [cmd] \<and> lock_held r' = lock_held r"
proof -
  have s: "r_serial r = Some True" using c by (simp add: connected_def)
  let ?r1 = "r\<lparr>tx := tx r @ [cmd], wr_faults := drop 1 (wr_faults r)\<rparr>"
  have 1: "send r cmd = (None, ?r1)" using s f by (rule send_ok)
  from a consider (tap) "tap_wait_times_out (rx r)"
    | (err) a rest where "rx r = a # rest" "answers RESP_ERROR a"
    | (result) a rest where "rx r = a # rest" "answers RESP_TAP_CARD a"
        "\<forall>l \<in> set (take 30 rest). l = []"
    | (err2) a b rest where "rx r = a # b # rest" "answers RESP_TAP_CARD a" "answers RESP_ERROR b"
    by (auto simp: attempt_fails_def result_wait_times_out_def attempt_errors_def
          split: list.splits)
  then show ?thesis
  proof cases
    case tap
    have 2: "wait_for_response [RESP_TAP_CARD, RESP_ERROR] 5 ?r1 =
               (\<lparr>status = lit ''TIMEOUT'', data = [], raw = []\<rparr>, ?r1\<lparr>rx := drop 5 (rx ?r1)\<rparr>)"
      using s tap by (intro wait_times_out) (auto simp: tap_wait_times_out_def)
    have "two_phase cmd terminal on_result tap r =
            (Returns (failure []), ?r1\<lparr>rx := drop 5 (rx ?r1)\<rparr>)"
      using c by (simp only: two_phase_def 1 2 prod.case option.case response.simps
            resp_distinct if_False if_True simp_thms)
    then show ?thesis by auto
  next
    case err
    have 2: "wait_for_response [RESP_TAP_CARD, RESP_ERROR] 5 ?r1 =
               (\<lparr>status = RESP_ERROR, data = line_data a, raw = [line_text a]\<rparr>,
                ?r1\<lparr>rx := rest\<rparr>)"
      using s err by (intro wait_answer) simp_all
    have "two_phase cmd terminal on_result tap r =
            (Returns (failure (line_data a)), ?r1\<lparr>rx := rest\<rparr>)"
      using c by (simp only: two_phase_def 1 2 prod.case option.case response.simps
            resp_distinct[symmetric] if_False if_True simp_thms)
    then show ?thesis by auto
  next
    case result
    let ?r2 = "?r1\<lparr>rx := rest\<rparr>"
    let ?r3 = "(tap_prompt tap ?r2)\<lparr>rx := drop 30 (rx (tap_prompt tap ?r2))\<rparr>"
    have 2: "wait_for_response [RESP_TAP_CARD, RESP_ERROR] 5 ?r1 =
               (\<lparr>status = RESP_TAP_CARD, data = line_data a, raw = [line_text a]\<rparr>, ?r2)"
      using s result by (intro wait_answer) simp_all
    have 3: "wait_for_response terminal 30 (tap_prompt tap ?r2) =
               (\<lparr>status = lit ''TIMEOUT'', data = [], raw = []\<rparr>, ?r3)"
      using s result by (intro wait_times_out) (auto simp: tap_prompt_def)
    have "two_phase cmd terminal on_result tap r = (Returns (failure (line_data a)), ?r3)"
      using c by (simp only: two_phase_def 1 2 3 prod.case option.case response.simps o
            if_False if_True simp_thms)
    then show ?thesis by (auto simp: tap_prompt_def)
  next
    case err2
    let ?r2 = "?r1\<lparr>rx := b # rest\<rparr>"
    let ?r3 = "(tap_prompt tap ?r2)\<lparr>rx := rest\<rparr>"
    have 2: "wait_for_response [RESP_TAP_CARD, RESP_ERROR] 5 ?r1 =
               (\<lparr>status = RESP_TAP_CARD, data = line_data a, raw = [line_text a]\<rparr>, ?r2)"
      using s err2 by (intro wait_answer) simp_all
    have 3: "wait_for_response terminal 30 (tap_prompt tap ?r2) =
               (\<lparr>status = RESP_ERROR, data = line_data b, raw = [line_text b]\<rparr>, ?r3)"
      using s err2 t by (intro wait_answer) (auto simp: tap_prompt_def)
    have "two_phase cmd terminal on_result tap r = (Returns (failure (line_data a)), ?r3)"
      using c by (simp only: two_phase_def 1 2 3 prod.case option.case response.simps o
            if_False if_True simp_thms)
    then show ?thesis by (auto simp: tap_prompt_def)
  qed
qed

lemma locked_fails:
  assumes "\<not> lock_held r"
    and "\<exists>msg r'. body (r\<lparr>lock_held := True\<rparr>) = (Returns (failure msg), r') \<and>
           tx r' = tx r @ [cmd] \<and> lock_held r' = True"
  shows "\<exists>msg r'. locked body r = (Returns (failure msg), r') \<and> tx r' = tx r @ [cmd] \<and>
           \<not> lock_held r'"
  using assms by (auto simp: locked_def)

lemma single_attempt_fails:
  assumes "connected r" "\<not> lock_held r" "\<forall>f \<in> set (take 1 (wr_faults r)). f = None"
    and "attempt_fails (rx r)"
    and "RESP_ERROR \<in> set terminal"
    and "\<And>d rw. on_result \<lparr>status = RESP_ERROR, data = d, raw = rw\<rparr> = None"
      "\<And>d rw. on_result \<lparr>status = lit ''TIMEOUT'', data = d, raw = rw\<rparr> = None"
  shows "\<exists>msg r'. locked (two_phase cmd terminal on_result tap) r = (Returns (failure msg), r') \<and>
           tx r' = tx r @ [cmd] \<and> \<not> lock_held r'"
proof -
  have "\<exists>msg r'. two_phase cmd terminal on_result tap (r\<lparr>lock_held := True\<rparr>) =
            (Returns (failure msg), r') \<and>
          tx r' = tx (r\<lparr>lock_held := True\<rparr>) @ [cmd] \<and>
          lock_held r' = lock_held (r\<lparr>lock_held := True\<rparr>)"
    using assms(1,3,4,5) by (intro two_phase_fails assms(6,7)) simp_all
  then show ?thesis using assms(2) by (intro locked_fails) simp_all
qed

lemma two_phase_sends:
  "\<exists>n\<le>1. tx (snd (two_phase cmd terminal on_result tap r)) = tx r @ replicate n cmd"
proof (cases "connected r")
  case False
  then have "tx (snd (two_phase cmd terminal on_result tap r)) = tx r @ replicate 0 cmd"
    by (simp add: two_phase_def)
  then show ?thesis by blast
next
  case True
  obtain x r1 where sd: "send r cmd = (x, r1)" by (cases "send r cmd")
  note fr = send_frame[OF sd]
  show ?thesis
  proof (cases x)
    case (Some em)
    obtain e msg where em: "em = (e, msg)" by (cases em)
    have "snd (two_phase cmd terminal on_result tap r) = r1"
      using True sd Some em by (simp add: two_phase_def)
    then have "tx (snd (two_phase cmd terminal on_result tap r)) = tx r @ replicate 0 cmd"
      using fr(3) Some by simp
    then show ?thesis by blast
  next
    case None
    have t1: "tx r1 = tx r @ [cmd]" using fr(2) None by simp
    obtain resp r2 where w1: "wait_for_response [RESP_TAP_CARD, RESP_ERROR] 5 r1 = (resp, r2)"
      by (cases "wait_for_response [RESP_TAP_CARD, RESP_ERROR] 5 r1")
    obtain ls where "r2 = r1\<lparr>rx := ls\<rparr>"
      using wait_frame[of "[RESP_TAP_CARD, RESP_ERROR]" 5 r1] w1 by auto
    then have r2: "tx r2 = tx r @ [cmd]" using t1 by simp
    obtain result r3 where w2: "wait_for_response terminal 30 (tap_prompt tap r2) = (result, r3)"
      by (cases "wait_for_response terminal 30 (tap_prompt tap r2)")
    obtain ls' where "r3 = (tap_prompt tap r2)\<lparr>rx := ls'\<rparr>"
      using wait_frame[of terminal 30 "tap_prompt tap r2"] w2 by auto
    then have r3: "tx r3 = tx r @ [cmd]" using r2 by (simp add: tap_prompt_def)
    have "snd (two_phase cmd terminal on_result tap r) \<in> {r2, r3}"
      using True sd None w1 w2 by (simp add: two_phase_def split: option.splits)
    then have "tx (snd (two_phase cmd terminal on_result tap r)) = tx r @ replicate 1 cmd"
      using r2 r3 by auto
    then show ?thesis by (intro exI[of _ 1]) simp
  qed
qed

lemma locked_sends:
  assumes "\<And>r. \<exists>n\<le>1. tx (snd (body r)) = tx r @ replicate n cmd"
  shows "\<exists>n\<le>1. tx (snd (locked body r)) = tx r @ replicate n cmd"
proof (cases "lock_held r")
  case True
  then have "tx (snd (locked body r)) = tx r @ replicate 0 cmd" by (simp add: locked_def)
  then show ?thesis by blast
next
  case False
  let ?b = "body (r\<lparr>lock_held := True\<rparr>)"
  have "tx (snd (locked body r)) = tx (snd ?b)"
    using False by (cases "fst ?b") (simp_all add: locked_def split_beta)
  then show ?thesis using assms[of "r\<lparr>lock_held := True\<rparr>"] by simp
qed

section \<open>The phone bridge under timeouts\<close>

definition p_wait_times_out :: "phone_event list \<Rightarrow> bool" where
  \<comment> \<open>the command is sent and no reply arrives within the wait\<close>
  "p_wait_times_out es \<longleftrightarrow> (\<forall>e \<in> set (take 1 es). e = No_reply)"

definition p_attempt_errors :: "phone_event list \<Rightarrow> bool" where
  \<comment> \<open>the page replies with an \<^verbatim>\<open>error\<close> event\<close>
  "p_attempt_errors es \<longleftrightarrow>
     (case es of Reply m # rest \<Rightarrow> nonempty m \<and> event m = lit ''error'' | _ \<Rightarrow> False)"

lemma send_command_no_reply:
  assumes "ws_client p" "loop p" "\<forall>e \<in> set (take 1 (replies p)). e = No_reply"
  shows "send_command p cmd =
           (None, p\<lparr>sent := sent p @ [cmd], replies := drop 1 (replies p)\<rparr>)"
proof (cases "replies p")
  case Nil
  then have "p\<lparr>sent := sent p @ [cmd]\<rparr> = p\<lparr>sent := sent p @ [cmd], replies := drop 1 (replies p)\<rparr>"
    by (cases p) simp
  then show ?thesis using assms Nil by (simp add: send_command_def)
next
  case (Cons e es)
  then show ?thesis using assms by (simp add: send_command_def)
qed

lemma p_write_loop_no_reply:
  assumes "ws_client p" "loop p" "\<forall>e \<in> set (take k (replies p)). e = No_reply"
  shows "p_write_loop cmd k attempt p =
           (p_failure (lit ''Failed after '' @ str_int (p_max_retries p) @ lit '' attempts''),
            p\<lparr>sent := sent p @ replicate k cmd, replies := drop k (replies p)\<rparr>)"
  using assms
proof (induction k arbitrary: attempt p)
  case 0
  have "p\<lparr>sent := sent p @ replicate 0 cmd, replies := drop 0 (replies p)\<rparr> = p"
    by (cases p) simp
  then show ?case by simp
next
  case (Suc k)
  let ?p = "p\<lparr>sent := sent p @ [cmd], replies := drop 1 (replies p)\<rparr>"
  have f1: "\<forall>e \<in> set (take 1 (replies p)). e = No_reply"
    using Suc.prems(3) by (cases "replies p") simp_all
  have fk: "\<forall>e \<in> set (take k (replies ?p)). e = No_reply"
    using Suc.prems(3) by (cases "replies p") simp_all
  have 1: "send_command p cmd = (None, ?p)"
    using Suc.prems(1,2) f1 by (rule send_command_no_reply)
  have ih: "p_write_loop cmd k (attempt + 1) ?p =
           (p_failure (lit ''Failed after '' @ str_int (p_max_retries ?p) @ lit '' attempts''),
            ?p\<lparr>sent := sent ?p @ replicate k cmd, replies := drop k (replies ?p)\<rparr>)"
    using Suc.prems(1,2) fk by (intro Suc.IH) simp_all
  have eq: "?p\<lparr>sent := sent ?p @ replicate k cmd, replies := drop k (replies ?p)\<rparr> =
            p\<lparr>sent := sent p @ replicate (Suc k) cmd, replies := drop (Suc k) (replies p)\<rparr>"
    by (cases p) (simp add: drop_Suc drop_tl)
  show ?case using ih unfolding eq by (simp add: 1)
qed

lemma p_write_ndef_no_reply:
  assumes "phone_is_connected p" "\<not> p_lock_held p" "nfc_supported p" "ws_client p" "loop p"
    and "ndef_to_web_nfc ndef_data = Inr cmd"
    and "\<forall>e \<in> set (take (nat (p_max_retries p)) (replies p)). e = No_reply"
  shows "p_write_ndef p ndef_data tap =
           (Returns (p_failure (lit ''Failed after '' @ str_int (p_max_retries p) @ lit '' attempts'')),
            p\<lparr>p_taps := p_taps p + (if tap then 1 else 0),
              sent := sent p @ replicate (nat (p_max_retries p)) cmd,
              replies := drop (nat (p_max_retries p)) (replies p)\<rparr>)"
proof -
  let ?n = "nat (p_max_retries p)"
  let ?p = "p_tap_prompt tap (p\<lparr>p_lock_held := True\<rparr>)"
  have w: "p_write_loop cmd ?n 1 ?p =
           (p_failure (lit ''Failed after '' @ str_int (p_max_retries ?p) @ lit '' attempts''),
            ?p\<lparr>sent := sent ?p @ replicate ?n cmd, replies := drop ?n (replies ?p)\<rparr>)"
    using assms(4,5,7) by (intro p_write_loop_no_reply) (simp_all add: p_tap_prompt_def)
  have m: "p_max_retries ?p = p_max_retries p" by (simp add: p_tap_prompt_def)
  have eq: "?p\<lparr>sent := sent ?p @ replicate ?n cmd, replies := drop ?n (replies ?p)\<rparr>
              \<lparr>p_lock_held := False\<rparr> =
            p\<lparr>p_taps := p_taps p + (if tap then 1 else 0),
              sent := sent p @ replicate ?n cmd, replies := drop ?n (replies p)\<rparr>"
    using assms(2) by (cases p) (simp add: p_tap_prompt_def)
  have sel: "nfc_supported (p\<lparr>p_lock_held := True\<rparr>) = nfc_supported p"
    "p_max_retries (p\<lparr>p_lock_held := True\<rparr>) = p_max_retries p"
    by simp_all
  show ?thesis
    using assms(1,2,3) unfolding p_write_ndef_def p_locked_def
    by (simp only: phone_is_connected_lock assms(6) sum.case w[unfolded m] prod.case res.case
          eq[unfolded m] if_False if_True simp_thms sel)
qed

lemma p_single_fails:
  assumes "phone_is_connected p" "\<not> p_lock_held p" "ws_client p" "loop p"
    and "p_wait_times_out (replies p) \<or> p_attempt_errors (replies p)"
    and "\<And>m. event m = lit ''error'' \<Longrightarrow> on_reply m = None"
  shows "\<exists>msg p'. p_locked (p_single cmd dflt on_reply tap) p = (Returns (p_failure msg), p') \<and>
           sent p' = sent p @ [cmd]"
proof -
  let ?p = "p_tap_prompt tap (p\<lparr>p_lock_held := True\<rparr>)"
  have c: "phone_is_connected (p\<lparr>p_lock_held := True\<rparr>)" using assms(1) by simp
  from assms(5) consider (quiet) "\<forall>e \<in> set (take 1 (replies p)). e = No_reply"
    | (err) m rest where "replies p = Reply m # rest" "nonempty m" "event m = lit ''error''"
    by (auto simp: p_wait_times_out_def p_attempt_errors_def split: list.splits phone_event.splits)
  then show ?thesis
  proof cases
    case quiet
    have 1: "send_command ?p cmd =
               (None, ?p\<lparr>sent := sent ?p @ [cmd], replies := drop 1 (replies ?p)\<rparr>)"
      using assms(3,4) quiet by (intro send_command_no_reply) (simp_all add: p_tap_prompt_def)
    have "p_locked (p_single cmd dflt on_reply tap) p =
            (Returns (p_failure (lit ''No response from phone'')),
             ?p\<lparr>sent := sent ?p @ [cmd], replies := drop 1 (replies ?p)\<rparr>\<lparr>p_lock_held := False\<rparr>)"
      using assms(2) c by (simp add: p_locked_def p_single_def 1)
    then show ?thesis by (auto simp: p_tap_prompt_def)
  next
    case err
    have 1: "send_command ?p cmd = (Some m, ?p\<lparr>sent := sent ?p @ [cmd], replies := rest\<rparr>)"
      using assms(3,4) err(1) by (simp add: send_command_def p_tap_prompt_def)
    have "p_locked (p_single cmd dflt on_reply tap) p =
            (Returns (p_failure (case reply_error m of None \<Rightarrow> dflt | Some e \<Rightarrow> e)),
             ?p\<lparr>sent := sent ?p @ [cmd], replies := rest\<rparr>\<lparr>p_lock_held := False\<rparr>)"
      using assms(2) c err(2) assms(6)[OF err(3)] by (simp add: p_locked_def p_single_def 1)
    then show ?thesis by (auto simp: p_tap_prompt_def)
  qed
qed

lemma send_command_sends:
  "\<exists>n\<le>1. sent (snd (send_command p cmd)) = sent p @ replicate n cmd"
proof -
  have "sent (snd (send_command p cmd)) = sent p @ replicate 0 cmd \<or>
        sent (snd (send_command p cmd)) = sent p @ replicate 1 cmd"
    by (auto simp: send_command_def split: list.splits phone_event.splits)
  then show ?thesis by (elim disjE) (blast intro: le0 order_refl)+
qed

lemma p_single_sends:
  "\<exists>n\<le>1. sent (snd (p_locked (p_single cmd dflt on_reply tap) p)) = sent p @ replicate n cmd"
proof (cases "p_lock_held p \<or> \<not> phone_is_connected p")
  case True
  then have "sent (snd (p_locked (p_single cmd dflt on_reply tap) p)) = sent p @ replicate 0 cmd"
    by (auto simp: p_locked_def p_single_def)
  then show ?thesis by blast
next
  case False
  let ?p = "p_tap_prompt tap (p\<lparr>p_lock_held := True\<rparr>)"
  have "sent (snd (p_locked (p_single cmd dflt on_reply tap) p)) = sent (snd (send_command ?p cmd))"
    using False
    by (cases "send_command ?p cmd") (auto simp: p_locked_def p_single_def split: option.splits)
  moreover have "sent ?p = sent p" by (simp add: p_tap_prompt_def)
  ultimately show ?thesis using send_command_sends[of ?p cmd] by simp
qed

section \<open>Timeouts: retried by a write, reported by the other operations\<close>

lemma terminal_results:
  "RESP_ERROR \<noteq> RESP_ERASE_OK" "lit ''TIMEOUT'' \<noteq> RESP_ERASE_OK"
  "RESP_ERROR \<noteq> RESP_LOCK_OK" "lit ''TIMEOUT'' \<noteq> RESP_LOCK_OK"
  "RESP_ERROR \<noteq> RESP_TAG_INFO" "lit ''TIMEOUT'' \<noteq> RESP_TAG_INFO"
  "RESP_ERROR \<noteq> RESP_READ_OK" "lit ''TIMEOUT'' \<noteq> RESP_READ_OK"
  "RESP_ERROR \<noteq> RESP_DATA" "lit ''TIMEOUT'' \<noteq> RESP_DATA"
  "RESP_ERROR \<noteq> RESP_NO_TAG" "lit ''TIMEOUT'' \<noteq> RESP_NO_TAG"
  by (simp_all add: RESP_ERROR_def RESP_ERASE_OK_def RESP_LOCK_OK_def RESP_TAG_INFO_def
        RESP_READ_OK_def RESP_DATA_def RESP_NO_TAG_def lit_def)

lemma ok_events:
  "lit ''error'' \<noteq> lit ''erase_ok''" "lit ''error'' \<noteq> lit ''read_ok''"
  "lit ''error'' \<noteq> lit ''lock_ok''" "lit ''error'' \<noteq> lit ''tag_info''"
  by (simp_all add: lit_def)

text \<open>
  Claim C9. On the serial transport, when in each attempt of \<open>write_ndef\<close> the wait for the
  tap prompt or the wait for the result times out, the write command is sent again, until
  it has been sent \<open>max_retries\<close> times, and the call returns the failure
  \<^verbatim>\<open>Failed after N attempts\<close>. \<open>erase_tag\<close>, \<open>read_tag\<close>, \<open>lock_tag\<close> and \<open>get_tag_info\<close>
  return a failure outcome after the one attempt in which a wait times out or the device
  answers \<^verbatim>\<open>ERROR\<close>, having sent their command once; and whatever the channel does they
  send their command at most once. On the phone transport the same holds with a reply
  that does not arrive in place of a wait that times out: \<open>write_ndef\<close> sends its command
  \<open>max_retries\<close> times and reports the attempts exhausted, the four other operations send
  theirs once and report the failure, and never send more than once.
  (The calls find the lock free; the serial port accepts the writes and the phone's
  socket is open.)
\<close>

theorem timeouts_retried_by_write_only:
  "(connected r \<and> \<not> lock_held r \<and> (\<forall>f \<in> set (wr_faults r). f = None) \<longrightarrow>
      (waits_time_out (nat (max_retries r)) (rx r) \<longrightarrow>
         fst (write_ndef r ndef_data tap) = Returns (failure (lit ''Failed after '' @ str_int (max_retries r) @ lit '' attempts'')) \<and>
         tx (snd (write_ndef r ndef_data tap)) =
           tx r @ replicate (nat (max_retries r)) (CMD_WRITE_RAW @ lit ''|'' @ bytes_to_hex ndef_data)) \<and>
      (attempt_fails (rx r) \<longrightarrow>
         (\<exists>msg r'. erase_tag r tap = (Returns (failure msg), r') \<and> tx r' = tx r @ [CMD_ERASE]) \<and>
         (\<exists>msg r'. read_tag r tap = (Returns (failure msg), r') \<and> tx r' = tx r @ [CMD_READ]) \<and>
         (\<exists>msg r'. lock_tag r tap = (Returns (failure msg), r') \<and> tx r' = tx r @ [CMD_LOCK]) \<and>
         (\<exists>msg r'. get_tag_info r tap = (Returns (failure msg), r') \<and> tx r' = tx r @ [CMD_INFO]))) \<and>
   (\<exists>n\<le>1. tx (snd (erase_tag r tap)) = tx r @ replicate n CMD_ERASE) \<and>
   (\<exists>n\<le>1. tx (snd (read_tag r tap)) = tx r @ replicate n CMD_READ) \<and>
   (\<exists>n\<le>1. tx (snd (lock_tag r tap)) = tx r @ replicate n CMD_LOCK) \<and>
   (\<exists>n\<le>1. tx (snd (get_tag_info r tap)) = tx r @ replicate n CMD_INFO) \<and>
   (phone_is_connected p \<and> \<not> p_lock_held p \<and> ws_client p \<and> loop p \<longrightarrow>
      (nfc_supported p \<and> ndef_to_web_nfc ndef_data = Inr cmd \<and>
       (\<forall>e \<in> set (take (nat (p_max_retries p)) (replies p)). e = No_reply) \<longrightarrow>
         p_write_ndef p ndef_data tap =
           (Returns (p_failure (lit ''Failed after '' @ str_int (p_max_retries p) @ lit '' attempts'')),
            p\<lparr>p_taps := p_taps p + (if tap then 1 else 0),
              sent := sent p @ replicate (nat (p_max_retries p)) cmd,
              replies := drop (nat (p_max_retries p)) (replies p)\<rparr>)) \<and>
      (p_wait_times_out (replies p) \<or> p_attempt_errors (replies p) \<longrightarrow>
         (\<exists>msg p'. p_erase_tag p tap = (Returns (p_failure msg), p') \<and> sent p' = sent p @ [Erase_cmd]) \<and>
         (\<exists>msg p'. p_read_tag str_upper p tap = (Returns (p_failure msg), p') \<and> sent p' = sent p @ [Read_cmd]) \<and>
         (\<exists>msg p'. p_lock_tag p tap = (Returns (p_failure msg), p') \<and> sent p' = sent p @ [Lock_cmd]) \<and>
         (\<exists>msg p'. p_get_tag_info p tap = (Returns (p_failure msg), p') \<and> sent p' = sent p @ [Info_cmd]))) \<and>
   (\<exists>n\<le>1. sent (snd (p_erase_tag p tap)) = sent p @ replicate n Erase_cmd) \<and>
   (\<exists>n\<le>1. sent (snd (p_read_tag str_upper p tap)) = sent p @ replicate n Read_cmd) \<and>
   (\<exists>n\<le>1. sent (snd (p_lock_tag p tap)) = sent p @ replicate n Lock_cmd) \<and>
   (\<exists>n\<le>1. sent (snd (p_get_tag_info p tap)) = sent p @ replicate n Info_cmd)"
proof -
  let ?werr = "\<lambda>on_result. \<forall>d rw. on_result \<lparr>status = RESP_ERROR, data = d, raw = rw\<rparr> = (None :: outcome option)"
  have serial: "connected r \<and> \<not> lock_held r \<and> (\<forall>f \<in> set (wr_faults r). f = None) \<longrightarrow>
      (waits_time_out (nat (max_retries r)) (rx r) \<longrightarrow>
         fst (write_ndef r ndef_data tap) = Returns (failure (lit ''Failed after '' @ str_int (max_retries r) @ lit '' attempts'')) \<and>
         tx (snd (write_ndef r ndef_data tap)) =
           tx r @ replicate (nat (max_retries r)) (CMD_WRITE_RAW @ lit ''|'' @ bytes_to_hex ndef_data)) \<and>
      (attempt_fails (rx r) \<longrightarrow>
         (\<exists>msg r'. erase_tag r tap = (Returns (failure msg), r') \<and> tx r' = tx r @ [CMD_ERASE]) \<and>
         (\<exists>msg r'. read_tag r tap = (Returns (failure msg), r') \<and> tx r' = tx r @ [CMD_READ]) \<and>
         (\<exists>msg r'. lock_tag r tap = (Returns (failure msg), r') \<and> tx r' = tx r @ [CMD_LOCK]) \<and>
         (\<exists>msg r'. get_tag_info r tap = (Returns (failure msg), r') \<and> tx r' = tx r @ [CMD_INFO]))"
  proof (intro impI conjI)
    assume h: "connected r \<and> \<not> lock_held r \<and> (\<forall>f \<in> set (wr_faults r). f = None)"
    then have c: "connected r" and l: "\<not> lock_held r"
      and fn: "\<forall>f \<in> set (take (nat (max_retries r)) (wr_faults r)). f = None"
      and f1: "\<forall>f \<in> set (take 1 (wr_faults r)). f = None"
      by (auto dest: in_set_takeD)
    {
      assume w: "waits_time_out (nat (max_retries r)) (rx r)"
      show "fst (write_ndef r ndef_data tap) = Returns (failure (lit ''Failed after '' @ str_int (max_retries r) @ lit '' attempts''))"
        using c l fn w by (rule write_ndef_times_out(1))
      show "tx (snd (write_ndef r ndef_data tap)) = tx r @ replicate (nat (max_retries r)) (CMD_WRITE_RAW @ lit ''|'' @ bytes_to_hex ndef_data)"
        using c l fn w by (rule write_ndef_times_out(2))
    }
    assume a: "attempt_fails (rx r)"
    show "(\<exists>msg r'. erase_tag r tap = (Returns (failure msg), r') \<and> tx r' = tx r @ [CMD_ERASE])"
    proof -
      have "\<exists>msg r'. erase_tag r tap = (Returns (failure msg), r') \<and> tx r' = tx r @ [CMD_ERASE] \<and>
              \<not> lock_held r'"
        unfolding erase_tag_def
        by (rule single_attempt_fails[OF c l f1 a]) (simp_all add: terminal_results)
      then show ?thesis by blast
    qed
    show "(\<exists>msg r'. read_tag r tap = (Returns (failure msg), r') \<and> tx r' = tx r @ [CMD_READ])"
    proof -
      have "\<exists>msg r'. read_tag r tap = (Returns (failure msg), r') \<and> tx r' = tx r @ [CMD_READ] \<and>
              \<not> lock_held r'"
        unfolding read_tag_def
        by (rule single_attempt_fails[OF c l f1 a]) (simp_all add: terminal_results)
      then show ?thesis by blast
    qed
    show "(\<exists>msg r'. lock_tag r tap = (Returns (failure msg), r') \<and> tx r' = tx r @ [CMD_LOCK])"
    proof -
      have "\<exists>msg r'. lock_tag r tap = (Returns (failure msg), r') \<and> tx r' = tx r @ [CMD_LOCK] \<and>
              \<not> lock_held r'"
        unfolding lock_tag_def
        by (rule single_attempt_fails[OF c l f1 a]) (simp_all add: terminal_results)
      then show ?thesis by blast
    qed
    show "(\<exists>msg r'. get_tag_info r tap = (Returns (failure msg), r') \<and> tx r' = tx r @ [CMD_INFO])"
    proof -
      have "\<exists>msg r'. get_tag_info r tap = (Returns (failure msg), r') \<and> tx r' = tx r @ [CMD_INFO] \<and>
              \<not> lock_held r'"
        unfolding get_tag_info_def
        by (rule single_attempt_fails[OF c l f1 a]) (simp_all add: terminal_results)
      then show ?thesis by blast
    qed
  qed
  have sg: "(\<exists>n\<le>1. tx (snd (erase_tag r tap)) = tx r @ replicate n CMD_ERASE)" "(\<exists>n\<le>1. tx (snd (read_tag r tap)) = tx r @ replicate n CMD_READ)" "(\<exists>n\<le>1. tx (snd (lock_tag r tap)) = tx r @ replicate n CMD_LOCK)" "(\<exists>n\<le>1. tx (snd (get_tag_info r tap)) = tx r @ replicate n CMD_INFO)"
    unfolding erase_tag_def read_tag_def lock_tag_def get_tag_info_def
    by (rule locked_sends, rule two_phase_sends)+
  have phone: "phone_is_connected p \<and> \<not> p_lock_held p \<and> ws_client p \<and> loop p \<longrightarrow>
      (nfc_supported p \<and> ndef_to_web_nfc ndef_data = Inr cmd \<and>
       (\<forall>e \<in> set (take (nat (p_max_retries p)) (replies p)). e = No_reply) \<longrightarrow>
         p_write_ndef p ndef_data tap =
           (Returns (p_failure (lit ''Failed after '' @ str_int (p_max_retries p) @ lit '' attempts'')),
            p\<lparr>p_taps := p_taps p + (if tap then 1 else 0),
              sent := sent p @ replicate (nat (p_max_retries p)) cmd,
              replies := drop (nat (p_max_retries p)) (replies p)\<rparr>)) \<and>
      (p_wait_times_out (replies p) \<or> p_attempt_errors (replies p) \<longrightarrow>
         (\<exists>msg p'. p_erase_tag p tap = (Returns (p_failure msg), p') \<and> sent p' = sent p @ [Erase_cmd]) \<and>
         (\<exists>msg p'. p_read_tag str_upper p tap = (Returns (p_failure msg), p') \<and> sent p' = sent p @ [Read_cmd]) \<and>
         (\<exists>msg p'. p_lock_tag p tap = (Returns (p_failure msg), p') \<and> sent p' = sent p @ [Lock_cmd]) \<and>
         (\<exists>msg p'. p_get_tag_info p tap = (Returns (p_failure msg), p') \<and> sent p' = sent p @ [Info_cmd]))"
  proof (intro impI conjI)
    assume h: "phone_is_connected p \<and> \<not> p_lock_held p \<and> ws_client p \<and> loop p"
    then have c: "phone_is_connected p" and l: "\<not> p_lock_held p" and w: "ws_client p"
      and lp: "loop p" by simp_all
    {
      assume "nfc_supported p \<and> ndef_to_web_nfc ndef_data = Inr cmd \<and>
        (\<forall>e \<in> set (take (nat (p_max_retries p)) (replies p)). e = No_reply)"
      then show "p_write_ndef p ndef_data tap =
           (Returns (p_failure (lit ''Failed after '' @ str_int (p_max_retries p) @ lit '' attempts'')),
            p\<lparr>p_taps := p_taps p + (if tap then 1 else 0),
              sent := sent p @ replicate (nat (p_max_retries p)) cmd,
              replies := drop (nat (p_max_retries p)) (replies p)\<rparr>)"
        using c l w lp by (intro p_write_ndef_no_reply) simp_all
    }
    assume a: "p_wait_times_out (replies p) \<or> p_attempt_errors (replies p)"
    show "(\<exists>msg p'. p_erase_tag p tap = (Returns (p_failure msg), p') \<and> sent p' = sent p @ [Erase_cmd])"
      unfolding p_erase_tag_def by (rule p_single_fails[OF c l w lp a]) (simp add: ok_events)
    show "(\<exists>msg p'. p_read_tag str_upper p tap = (Returns (p_failure msg), p') \<and> sent p' = sent p @ [Read_cmd])"
      unfolding p_read_tag_def by (rule p_single_fails[OF c l w lp a]) (simp add: ok_events)
    show "(\<exists>msg p'. p_lock_tag p tap = (Returns (p_failure msg), p') \<and> sent p' = sent p @ [Lock_cmd])"
      unfolding p_lock_tag_def by (rule p_single_fails[OF c l w lp a]) (simp add: ok_events)
    show "(\<exists>msg p'. p_get_tag_info p tap = (Returns (p_failure msg), p') \<and> sent p' = sent p @ [Info_cmd])"
      unfolding p_get_tag_info_def by (rule p_single_fails[OF c l w lp a]) (simp add: ok_events)
  qed
  have pg: "(\<exists>n\<le>1. sent (snd (p_erase_tag p tap)) = sent p @ replicate n Erase_cmd)" "(\<exists>n\<le>1. sent (snd (p_read_tag str_upper p tap)) = sent p @ replicate n Read_cmd)" "(\<exists>n\<le>1. sent (snd (p_lock_tag p tap)) = sent p @ replicate n Lock_cmd)" "(\<exists>n\<le>1. sent (snd (p_get_tag_info p tap)) = sent p @ replicate n Info_cmd)"
    unfolding p_erase_tag_def p_read_tag_def p_lock_tag_def p_get_tag_info_def
    by (rule p_single_sends)+
  show ?thesis
    using serial sg phone pg by (intro conjI)
qed

theorem timeouts_retried_by_write_only_witness:
  "connected \<lparr>r_connected = True, r_serial = Some True, max_retries = 3, lock_held = False,
       port_found = True, open_ok = True, tx = [],
       rx = (blit ''TAP_CARD'' @ [0x0D, 0x0A]) # replicate 30 [],
       wr_faults = [], taps = 0\<rparr> \<and>
   waits_time_out 3 ((blit ''TAP_CARD'' @ [0x0D, 0x0A]) # replicate 30 []) \<and>
   attempt_fails ((blit ''TAP_CARD'' @ [0x0D, 0x0A]) # replicate 30 []) \<and>
   fst (write_ndef \<lparr>r_connected = True, r_serial = Some True, max_retries = 3, lock_held = False,
       port_found = True, open_ok = True, tx = [],
       rx = (blit ''TAP_CARD'' @ [0x0D, 0x0A]) # replicate 30 [],
       wr_faults = [], taps = 0\<rparr> [0x03, 0x00, 0xFE] True) =
     Returns (failure (lit ''Failed after 3 attempts'')) \<and>
   tx (snd (write_ndef \<lparr>r_connected = True, r_serial = Some True, max_retries = 3, lock_held = False,
       port_found = True, open_ok = True, tx = [],
       rx = (blit ''TAP_CARD'' @ [0x0D, 0x0A]) # replicate 30 [],
       wr_faults = [], taps = 0\<rparr> [0x03, 0x00, 0xFE] True)) =
     [lit ''WRITE_RAW|0300FE'', lit ''WRITE_RAW|0300FE'', lit ''WRITE_RAW|0300FE''] \<and>
   (\<exists>msg r'. erase_tag \<lparr>r_connected = True, r_serial = Some True, max_retries = 3, lock_held = False,
       port_found = True, open_ok = True, tx = [],
       rx = (blit ''TAP_CARD'' @ [0x0D, 0x0A]) # replicate 30 [],
       wr_faults = [], taps = 0\<rparr> True = (Returns (failure msg), r') \<and> tx r' = [CMD_ERASE]) \<and>
   (\<exists>msg r'. get_tag_info \<lparr>r_connected = True, r_serial = Some True, max_retries = 3, lock_held = False,
       port_found = True, open_ok = True, tx = [],
       rx = (blit ''TAP_CARD'' @ [0x0D, 0x0A]) # replicate 30 [],
       wr_faults = [], taps = 0\<rparr> True = (Returns (failure msg), r') \<and> tx r' = [CMD_INFO]) \<and>
   phone_is_connected \<lparr>p_connected = True, phone_ready = True, nfc_supported = True, ws_client = True,
       loop = True, p_max_retries = 3, p_lock_held = False, sent = [],
       replies = [No_reply, No_reply, No_reply], p_taps = 0\<rparr> \<and>
   ndef_to_web_nfc [0x03, 0x00, 0xFE] = Inr (Write_raw (lit ''0300FE'')) \<and>
   p_wait_times_out [No_reply, No_reply, No_reply] \<and>
   p_write_ndef \<lparr>p_connected = True, phone_ready = True, nfc_supported = True, ws_client = True,
       loop = True, p_max_retries = 3, p_lock_held = False, sent = [],
       replies = [No_reply, No_reply, No_reply], p_taps = 0\<rparr> [0x03, 0x00, 0xFE] True =
     (Returns (p_failure (lit ''Failed after 3 attempts'')), \<lparr>p_connected = True, phone_ready = True, nfc_supported = True, ws_client = True,
       loop = True, p_max_retries = 3, p_lock_held = False,
       sent = [Write_raw (lit ''0300FE''), Write_raw (lit ''0300FE''), Write_raw (lit ''0300FE'')],
       replies = [], p_taps = 1\<rparr>) \<and>
   (\<exists>msg p'. p_erase_tag \<lparr>p_connected = True, phone_ready = True, nfc_supported = True, ws_client = True,
       loop = True, p_max_retries = 3, p_lock_held = False, sent = [],
       replies = [No_reply, No_reply, No_reply], p_taps = 0\<rparr> True = (Returns (p_failure msg), p') \<and> sent p' = [Erase_cmd]) \<and>
   (\<exists>msg p'. p_read_tag upper \<lparr>p_connected = True, phone_ready = True, nfc_supported = True, ws_client = True,
       loop = True, p_max_retries = 3, p_lock_held = False, sent = [],
       replies = [No_reply, No_reply, No_reply], p_taps = 0\<rparr> True = (Returns (p_failure msg), p') \<and> sent p' = [Read_cmd])"
proof -
  have s: "waits_time_out 3 ((blit ''TAP_CARD'' @ [0x0D, 0x0A]) # replicate 30 [])"
    "attempt_fails ((blit ''TAP_CARD'' @ [0x0D, 0x0A]) # replicate 30 [])"
    unfolding three
    by (simp_all add: attempt_fails_def tap_wait_times_out_def result_wait_times_out_def
          line_eval)
  have c: "CMD_WRITE_RAW @ lit ''|'' @ bytes_to_hex [0x03, 0x00, 0xFE] = lit ''WRITE_RAW|0300FE''"
    "lit ''Failed after '' @ str_int 3 @ lit '' attempts'' = lit ''Failed after 3 attempts''"
    "bytes_to_hex [0x03, 0x00, 0xFE] = lit ''0300FE''"
    by (simp_all add: command_eval)
  have rep: "replicate 3 x = [x, x, x]" for x :: 'a
    by (simp add: numeral_3_eq_3)
  have n: "ndef_to_web_nfc [0x03, 0x00, 0xFE] = Inr (Write_raw (lit ''0300FE''))"
    by (simp add: ndef_to_web_nfc_def get_ndef_payload_info_short rbind_def c)
  show ?thesis
    using timeouts_retried_by_write_only [of "\<lparr>r_connected = True, r_serial = Some True, max_retries = 3, lock_held = False,
       port_found = True, open_ok = True, tx = [],
       rx = (blit ''TAP_CARD'' @ [0x0D, 0x0A]) # replicate 30 [],
       wr_faults = [], taps = 0\<rparr>" "[0x03, 0x00, 0xFE]" True
        "\<lparr>p_connected = True, phone_ready = True, nfc_supported = True, ws_client = True,
       loop = True, p_max_retries = 3, p_lock_held = False, sent = [],
       replies = [No_reply, No_reply, No_reply], p_taps = 0\<rparr>" "Write_raw (lit ''0300FE'')" upper] s n
    by (simp add: connected_def phone_is_connected_def p_wait_times_out_def c(1,2) rep)
qed

end
